theory Spec2Isabelle
  imports Main "HOL-Library.Word" "HOL-Library.Signed_Division"
begin

unbundle bit_operations_syntax

section \<open>Machine types and the shared data model\<close>

text \<open>
  The two programs of the repository, \<^verbatim>\<open>u3bench.c\<close> (asynchronous benchmark) and
  \<^verbatim>\<open>u3loop.c\<close> (synchronous loopback test), share \<^verbatim>\<open>u3loop_defines.h\<close> and a
  number of identically named functions and structs. Unsuffixed names below are those of
  \<^verbatim>\<open>u3bench.c\<close>; the ones of \<^verbatim>\<open>u3loop.c\<close> carry the suffix \<open>_u3loop\<close>.

  C's \<^verbatim>\<open>uint64_t\<close>, \<^verbatim>\<open>unsigned long long\<close>, \<^verbatim>\<open>uint32_t\<close> and \<^verbatim>\<open>unsigned int\<close>
  are words whose arithmetic wraps around. C's \<^verbatim>\<open>int\<close> is a 32-bit word read with
  \<open>sint\<close>; its overflow is undefined in C, so statements that depend on the signed value
  carry the hypothesis that the sum stays in range.
\<close>

type_synonym u8 = "8 word"
type_synonym u16 = "16 word"
type_synonym u32 = "32 word"
type_synonym u64 = "64 word"
type_synonym c_int = "32 word"

text \<open>\<^verbatim>\<open>struct timespec\<close>: \<^verbatim>\<open>time_t tv_sec\<close> and \<^verbatim>\<open>long tv_nsec\<close>, both signed.\<close>

record timespec =
  tv_sec :: int
  tv_nsec :: int

text \<open>\<^verbatim>\<open>struct host_errors_t\<close> of u3bench.c. The field \<^verbatim>\<open>length\<close> is \<open>length_he\<close> here.\<close>

record host_errors_t =
  data_corrupt :: c_int
  error :: c_int
  length_he :: c_int
  stall :: c_int
  timeout :: c_int
  overflow :: c_int

record stat_counters =
  tx_bytes :: u64
  rx_bytes :: u64

text \<open>\<^verbatim>\<open>struct u3loop_errors\<close> of u3loop_defines.h (packed, four \<^verbatim>\<open>uint32_t\<close>).\<close>

record u3loop_errors =
  phy_error_cnt :: u32
  ll_error_cnt :: u32
  phy_errors :: u32
  ll_errors :: u32

text \<open>\<^verbatim>\<open>struct state_t\<close> of u3bench.c.\<close>

record state_t =
  start_time :: timespec
  active_transfers :: u32
  ops :: u64
  ctrs :: stat_counters
  host_errors :: host_errors_t
  dev_errors :: u3loop_errors
  cum_host_errors :: host_errors_t
  cum_dev_errors :: u3loop_errors
  measurement_time :: timespec
  measurement :: stat_counters

section \<open>The transport (libusb) as seen by u3bench.c\<close>

text \<open>
  libusb is an external library. Its constants are those of \<^verbatim>\<open>libusb.h\<close>; its behaviour
  is an input of the model: every call whose outcome the library decides takes that
  outcome as an argument.
\<close>

definition LIBUSB_SUCCESS :: int where "LIBUSB_SUCCESS = 0"
definition LIBUSB_ERROR_BUSY :: int where "LIBUSB_ERROR_BUSY = -6"
definition LIBUSB_ERROR_TIMEOUT :: int where "LIBUSB_ERROR_TIMEOUT = -7"
definition LIBUSB_ERROR_OVERFLOW :: int where "LIBUSB_ERROR_OVERFLOW = -8"
definition LIBUSB_ERROR_PIPE :: int where "LIBUSB_ERROR_PIPE = -9"

definition LIBUSB_ENDPOINT_IN :: u8 where "LIBUSB_ENDPOINT_IN = 0x80"
definition LIBUSB_ENDPOINT_OUT :: u8 where "LIBUSB_ENDPOINT_OUT = 0x00"
definition LIBUSB_ENDPOINT_DIR_MASK :: u8 where "LIBUSB_ENDPOINT_DIR_MASK = 0x80"

definition BULK_IN :: u8 where "BULK_IN = 0x01 OR LIBUSB_ENDPOINT_IN"
definition BULK_OUT :: u8 where "BULK_OUT = 0x01"
definition BUFFER_CNT :: nat where "BUFFER_CNT = 64"

text \<open>\<^verbatim>\<open>enum libusb_transfer_status\<close>: exactly these seven values.\<close>

datatype libusb_transfer_status =
    LIBUSB_TRANSFER_COMPLETED
  | LIBUSB_TRANSFER_ERROR
  | LIBUSB_TRANSFER_TIMED_OUT
  | LIBUSB_TRANSFER_CANCELLED
  | LIBUSB_TRANSFER_STALL
  | LIBUSB_TRANSFER_NO_DEVICE
  | LIBUSB_TRANSFER_OVERFLOW

text \<open>
  The fields of \<^verbatim>\<open>struct libusb_transfer\<close> that u3bench.c reads or writes. \<^verbatim>\<open>length\<close> is
  \<open>length_xfer\<close>; \<open>buffer\<close> is the identity of a malloc block (\<open>None\<close> is \<^verbatim>\<open>NULL\<close>).
  \<^verbatim>\<open>user_data\<close> always points to main's one \<^verbatim>\<open>state\<close>, \<^verbatim>\<open>callback\<close> is always
  \<^verbatim>\<open>transfer_cb\<close>.
\<close>

record libusb_transfer =
  endpoint :: u8
  status :: libusb_transfer_status
  length_xfer :: c_int
  actual_length :: c_int
  buffer :: "nat option"

text \<open>An entry of main's array \<^verbatim>\<open>xfers\<close>, which is declared without an initialiser.\<close>

datatype xfer_ptr = Indeterminate | Null | Ptr libusb_transfer

text \<open>
  Calls into libusb and libc that the claims speak about, in the order made. \<open>Free a n\<close> is
  \<^verbatim>\<open>free\<close> of block \<open>a\<close>, made when \<^verbatim>\<open>state.active_transfers\<close> held \<open>n\<close>.
\<close>

datatype lib_call =
    Submit nat
  | Cancel nat
  | Handle_events
  | Free nat u32
  | Free_transfer nat

text \<open>
  Everything the asynchronous pipeline of u3bench.c touches: main's \<^verbatim>\<open>state\<close>, the global
  \<^verbatim>\<open>terminate\<close>, main's \<^verbatim>\<open>xfers\<close>, and the environment: \<open>flying\<close> are the indices of the
  transfers libusb holds as submitted and not yet called back, \<open>heap\<close> the live malloc
  blocks, \<open>calls\<close> the log of library calls.
\<close>

record pipeline =
  state :: state_t
  terminate :: bool
  xfers :: "xfer_ptr list"
  flying :: "nat set"
  heap :: "nat set"
  calls :: "lib_call list"

text \<open>
  \<^verbatim>\<open>libusb_submit_transfer(xfers[i])\<close>. \<open>env\<close> is the outcome the library and the bus
  decide (0 or an error code); a transfer that is still submitted is refused with
  \<^verbatim>\<open>LIBUSB_ERROR_BUSY\<close> whatever the bus says.
\<close>

definition libusb_submit_transfer :: "int \<Rightarrow> nat \<Rightarrow> pipeline \<Rightarrow> int \<times> pipeline" where
  "libusb_submit_transfer env i w =
     (let w1 = w\<lparr>calls := calls w @ [Submit i]\<rparr> in
      if i \<in> flying w then (LIBUSB_ERROR_BUSY, w1)
      else if env = LIBUSB_SUCCESS then (LIBUSB_SUCCESS, w1\<lparr>flying := insert i (flying w)\<rparr>)
      else (env, w1))"

subsection \<open>transfer_cb (u3bench.c, lines 368-418)\<close>

text \<open>Lines 413-417: the resubmission at the end of the callback.\<close>

definition transfer_cb_resubmit :: "int \<Rightarrow> nat \<Rightarrow> pipeline \<Rightarrow> pipeline" where
  "transfer_cb_resubmit env i w =
     (if \<not> terminate w then
        (case libusb_submit_transfer env i w of
           (r, w') \<Rightarrow>
             if r = LIBUSB_SUCCESS
             then w'\<lparr>state := (state w')\<lparr>active_transfers := active_transfers (state w') + 1\<rparr>\<rparr>
             else w')
      else w)"

text \<open>
  \<open>transfer_cb env i transfer w\<close>: the callback for the transfer \<open>xfers[i]\<close>, whose fields
  libusb has filled in (\<open>transfer\<close>). \<^verbatim>\<open>actual_length\<close> is an \<^verbatim>\<open>int\<close> added to a
  \<^verbatim>\<open>uint64_t\<close>: C converts it by sign extension (\<open>scast\<close>). The \<^verbatim>\<open>default\<close> branch
  (\<^verbatim>\<open>assert(false)\<close>) has no status left to handle.
\<close>

definition transfer_cb :: "int \<Rightarrow> nat \<Rightarrow> libusb_transfer \<Rightarrow> pipeline \<Rightarrow> pipeline" where
  "transfer_cb env i transfer w =
     (let is_tx = (endpoint transfer AND LIBUSB_ENDPOINT_DIR_MASK = LIBUSB_ENDPOINT_OUT);
          s = (state w)\<lparr>active_transfers := active_transfers (state w) - 1\<rparr>;
          he = host_errors s
      in case status transfer of
           LIBUSB_TRANSFER_COMPLETED \<Rightarrow>
             (let s1 = s\<lparr>ops := ops s + 1\<rparr>;
                  s2 = (if length_xfer transfer \<noteq> actual_length transfer
                        then s1\<lparr>host_errors := he\<lparr>length_he := length_he he + 1\<rparr>\<rparr>
                        else s1);
                  s3 = (if is_tx
                        then s2\<lparr>ctrs := (ctrs s2)\<lparr>tx_bytes :=
                               tx_bytes (ctrs s2) + scast (actual_length transfer)\<rparr>\<rparr>
                        else s2\<lparr>ctrs := (ctrs s2)\<lparr>rx_bytes :=
                               rx_bytes (ctrs s2) + scast (actual_length transfer)\<rparr>\<rparr>)
              in transfer_cb_resubmit env i (w\<lparr>state := s3\<rparr>))
         | LIBUSB_TRANSFER_ERROR \<Rightarrow>
             transfer_cb_resubmit env i
               (w\<lparr>state := s\<lparr>host_errors := he\<lparr>error := error he + 1\<rparr>\<rparr>\<rparr>)
         | LIBUSB_TRANSFER_TIMED_OUT \<Rightarrow>
             transfer_cb_resubmit env i
               (w\<lparr>state := s\<lparr>host_errors := he\<lparr>timeout := timeout he + 1\<rparr>\<rparr>\<rparr>)
         | LIBUSB_TRANSFER_STALL \<Rightarrow>
             transfer_cb_resubmit env i
               (w\<lparr>state := s\<lparr>host_errors := he\<lparr>stall := stall he + 1\<rparr>\<rparr>\<rparr>)
         | LIBUSB_TRANSFER_OVERFLOW \<Rightarrow>
             transfer_cb_resubmit env i
               (w\<lparr>state := s\<lparr>host_errors := he\<lparr>overflow := overflow he + 1\<rparr>\<rparr>\<rparr>)
         | LIBUSB_TRANSFER_NO_DEVICE \<Rightarrow>
             transfer_cb_resubmit env i (w\<lparr>state := s, terminate := True\<rparr>)
         | LIBUSB_TRANSFER_CANCELLED \<Rightarrow> w\<lparr>state := s\<rparr>)"

text \<open>
  The statistics of a \<open>state_t\<close>: everything but \<open>active_transfers\<close>, which counts
  requests, not results.
\<close>

definition stats :: "state_t \<Rightarrow> state_t" where
  "stats s = s\<lparr>active_transfers := 0\<rparr>"

text \<open>
  The direction of an endpoint address as USB defines it: bit 7 set is device-to-host
  (inbound), clear is host-to-device (outbound).
\<close>

definition is_inbound :: "libusb_transfer \<Rightarrow> bool" where
  "is_inbound t = bit (endpoint t) 7"

text \<open>A transfer as libusb hands it to the callback, for the examples.\<close>

definition example_transfer :: "u8 \<Rightarrow> libusb_transfer_status \<Rightarrow> libusb_transfer" where
  "example_transfer ep st =
     \<lparr>endpoint = ep, status = st, length_xfer = 1024, actual_length = 512, buffer = Some 0\<rparr>"

text \<open>main's \<^verbatim>\<open>struct state_t state = { 0 }\<close> and the world around it before the pool is filled.\<close>

definition host_errors_zero :: host_errors_t where
  "host_errors_zero =
     \<lparr>data_corrupt = 0, error = 0, length_he = 0, stall = 0, timeout = 0, overflow = 0\<rparr>"

definition u3loop_errors_zero :: u3loop_errors where
  "u3loop_errors_zero = \<lparr>phy_error_cnt = 0, ll_error_cnt = 0, phy_errors = 0, ll_errors = 0\<rparr>"

definition state_zero :: state_t where
  "state_zero =
     \<lparr>start_time = \<lparr>tv_sec = 0, tv_nsec = 0\<rparr>, active_transfers = 0, ops = 0,
      ctrs = \<lparr>tx_bytes = 0, rx_bytes = 0\<rparr>, host_errors = host_errors_zero,
      dev_errors = u3loop_errors_zero, cum_host_errors = host_errors_zero,
      cum_dev_errors = u3loop_errors_zero, measurement_time = \<lparr>tv_sec = 0, tv_nsec = 0\<rparr>,
      measurement = \<lparr>tx_bytes = 0, rx_bytes = 0\<rparr>\<rparr>"

definition pipeline_zero :: pipeline where
  "pipeline_zero =
     \<lparr>state = state_zero, terminate = False, xfers = replicate BUFFER_CNT Indeterminate,
      flying = {}, heap = {}, calls = []\<rparr>"

section \<open>The pool of transfers in main (u3bench.c)\<close>

text \<open>The values \<^verbatim>\<open>opt_mode\<close> takes in u3bench.c (initialiser and option \<^verbatim>\<open>-m\<close>).\<close>

datatype test_mode = U3LOOP_MODE_READ | U3LOOP_MODE_WRITE | U3LOOP_MODE_READ_WRITE

text \<open>
  What the environment decides for pool entry \<open>i\<close>: whether \<^verbatim>\<open>libusb_alloc_transfer\<close> and
  \<^verbatim>\<open>malloc\<close> succeed, and the outcome of the first submission.
\<close>

record slot_env =
  alloc_ok :: bool
  malloc_ok :: bool
  submit_res :: int

text \<open>
  The body of the allocation loop (lines 673-739; the DMA branch is compiled out). The
  block \<^verbatim>\<open>malloc\<close> returns in turn \<open>i\<close> is named \<open>i\<close>. \<^verbatim>\<open>libusb_alloc_transfer\<close> returns a
  zeroed transfer, so after \<^verbatim>\<open>libusb_fill_bulk_transfer\<close> its status reads
  \<open>LIBUSB_TRANSFER_COMPLETED\<close> (0). The second component of the result is \<open>False\<close> for
  \<^verbatim>\<open>goto fail3\<close>.
\<close>

definition libusb_fill_bulk_transfer :: "u8 \<Rightarrow> nat option \<Rightarrow> c_int \<Rightarrow> libusb_transfer" where
  "libusb_fill_bulk_transfer ep buf len =
     \<lparr>endpoint = ep, status = LIBUSB_TRANSFER_COMPLETED, length_xfer = len,
      actual_length = 0, buffer = buf\<rparr>"

text \<open>Lines 720-732 (\<^verbatim>\<open>// Determine endpoint\<close>); \<^verbatim>\<open>i & 1\<close> is \<open>odd i\<close>.\<close>

definition pool_endpoint :: "test_mode \<Rightarrow> nat \<Rightarrow> u8" where
  "pool_endpoint opt_mode i =
     (case opt_mode of
        U3LOOP_MODE_READ \<Rightarrow> BULK_IN
      | U3LOOP_MODE_WRITE \<Rightarrow> BULK_OUT
      | U3LOOP_MODE_READ_WRITE \<Rightarrow> if odd i then BULK_OUT else BULK_IN)"

definition fill_slot :: "test_mode \<Rightarrow> nat \<Rightarrow> slot_env \<Rightarrow> nat \<Rightarrow> pipeline \<Rightarrow> pipeline \<times> bool" where
  "fill_slot opt_mode opt_transfer_size e i w =
     (if \<not> alloc_ok e then (w\<lparr>xfers := (xfers w)[i := Null]\<rparr>, False)
      else if \<not> malloc_ok e
      then (w\<lparr>xfers := (xfers w)[i := Null], calls := calls w @ [Free_transfer i]\<rparr>, False)
      else
        (let ep = pool_endpoint opt_mode i;
             t = libusb_fill_bulk_transfer ep (Some i) (of_nat opt_transfer_size);
             w1 = w\<lparr>heap := insert i (heap w), xfers := (xfers w)[i := Ptr t]\<rparr>
         in case libusb_submit_transfer (submit_res e) i w1 of
              (r, w2) \<Rightarrow>
                (if r = LIBUSB_SUCCESS
                 then w2\<lparr>state := (state w2)\<lparr>active_transfers := active_transfers (state w2) + 1\<rparr>\<rparr>
                 else w2, True)))"

fun fill_slots ::
  "test_mode \<Rightarrow> nat \<Rightarrow> (nat \<Rightarrow> slot_env) \<Rightarrow> nat list \<Rightarrow> pipeline \<Rightarrow> pipeline \<times> bool" where
  "fill_slots opt_mode opt_transfer_size env [] w = (w, True)"
| "fill_slots opt_mode opt_transfer_size env (i # is) w =
     (case fill_slot opt_mode opt_transfer_size (env i) i w of
        (w', True) \<Rightarrow> fill_slots opt_mode opt_transfer_size env is w'
      | (w', False) \<Rightarrow> (w', False))"

text \<open>Lines 672-740: \<^verbatim>\<open>for (i=0; i < ARRAY_SIZE(xfers); i++)\<close>.\<close>

definition fill_pool ::
  "test_mode \<Rightarrow> nat \<Rightarrow> (nat \<Rightarrow> slot_env) \<Rightarrow> pipeline \<Rightarrow> pipeline \<times> bool" where
  "fill_pool opt_mode opt_transfer_size env w =
     fill_slots opt_mode opt_transfer_size env [0..<BUFFER_CNT] w"

subsection \<open>Event handling\<close>

text \<open>
  A completion as libusb reports it: the transfer (\<open>xfers[slot]\<close>), the status and
  \<^verbatim>\<open>actual_length\<close> it stores in the transfer before calling back, and the outcome a
  resubmission from the callback would have.
\<close>

record completion =
  slot :: nat
  cstatus :: libusb_transfer_status
  cactual_length :: c_int
  resubmit_res :: int

text \<open>What can happen inside an event-handling call: a completion, or SIGINT/SIGTERM.\<close>

datatype event = Completes completion | Signal

text \<open>The signal handler \<^verbatim>\<open>terminator\<close> (lines 135-137).\<close>

definition terminator :: "pipeline \<Rightarrow> pipeline" where
  "terminator w = w\<lparr>terminate := True\<rparr>"

text \<open>
  libusb calls back only for a transfer it holds as submitted, takes it off its list
  first, and calls \<^verbatim>\<open>transfer_cb\<close> on the thread that handles events.
\<close>

definition deliver :: "completion \<Rightarrow> pipeline \<Rightarrow> pipeline" where
  "deliver c w =
     (if slot c \<in> flying w \<and> slot c < length (xfers w) then
        (case xfers w ! slot c of
           Ptr t \<Rightarrow>
             (let t' = t\<lparr>status := cstatus c, actual_length := cactual_length c\<rparr>
              in transfer_cb (resubmit_res c) (slot c) t'
                   (w\<lparr>flying := flying w - {slot c}, xfers := (xfers w)[slot c := Ptr t']\<rparr>))
         | _ \<Rightarrow> w)
      else w)"

fun occur :: "event \<Rightarrow> pipeline \<Rightarrow> pipeline" where
  "occur (Completes c) w = deliver c w"
| "occur Signal w = terminator w"

text \<open>
  \<^verbatim>\<open>libusb_handle_events\<close> and \<^verbatim>\<open>libusb_handle_events_timeout_completed\<close>: one call
  handles the batch of events the environment has for it.
\<close>

definition libusb_handle_events :: "event list \<Rightarrow> pipeline \<Rightarrow> pipeline" where
  "libusb_handle_events batch w = fold occur batch (w\<lparr>calls := calls w @ [Handle_events]\<rparr>)"

section \<open>Measurements\<close>

text \<open>What stops the program instead of a result.\<close>

datatype fault = SIGFPE | SIGSEGV | Indeterminate_read | Double_free

text \<open>
  The \<^verbatim>\<open>double\<close> variables of \<^verbatim>\<open>print_measurement\<close> hold either \<^verbatim>\<open>INFINITY\<close> or an
  unsigned 64-bit quotient converted to \<^verbatim>\<open>double\<close> (the conversion's rounding is not
  modelled).
\<close>

datatype c_double = INFINITY | Of_u64 u64

text \<open>Unsigned division as the machine performs it: a zero divisor traps.\<close>

definition udiv :: "u64 \<Rightarrow> u64 \<Rightarrow> fault + u64" where
  "udiv a b = (if b = 0 then Inl SIGFPE else Inr (a div b))"

text \<open>
  Lines 195-199 of u3bench.c (213-217 of u3loop.c): signed arithmetic on \<^verbatim>\<open>time_t\<close> and
  \<^verbatim>\<open>long\<close> (C's \<^verbatim>\<open>/\<close> truncates towards zero: \<open>sdiv\<close>), converted to \<^verbatim>\<open>uint64_t\<close>.
\<close>

definition usec_between :: "timespec \<Rightarrow> timespec \<Rightarrow> u64" where
  "usec_between now t =
     word_of_int ((tv_sec now - tv_sec t) * 1000000 + (tv_nsec now - tv_nsec t) sdiv 1000)"

text \<open>
  Lines 201-208 and 209-216 of u3bench.c: three doubles initialised to \<^verbatim>\<open>INFINITY\<close> and
  overwritten by quotients only under the guard \<^verbatim>\<open>usec != 0\<close>.
\<close>

definition speeds :: "u64 \<Rightarrow> u64 \<Rightarrow> u64 \<Rightarrow> u64 \<Rightarrow> fault + (c_double \<times> c_double \<times> c_double)" where
  "speeds a b c usec =
     (if usec \<noteq> 0 then
        (case udiv a usec of Inl f \<Rightarrow> Inl f | Inr x \<Rightarrow>
         case udiv b usec of Inl f \<Rightarrow> Inl f | Inr y \<Rightarrow>
         case udiv c usec of Inl f \<Rightarrow> Inl f | Inr z \<Rightarrow>
           Inr (Of_u64 x, Of_u64 y, Of_u64 z))
      else Inr (INFINITY, INFINITY, INFINITY))"

text \<open>The line \<^verbatim>\<open>print_measurement\<close> of u3bench.c prints, column by column.\<close>

record measurement_line =
  time_sec :: u64
  line_ops :: u64
  mbps :: c_double
  avg_mbps :: c_double
  tx_mbps :: c_double
  tx_avg_mbps :: c_double
  rx_mbps :: c_double
  rx_avg_mbps :: c_double
  host_error_cnt :: c_int

text \<open>
  \<^verbatim>\<open>print_measurement\<close> of u3bench.c (lines 170-239). \<open>clk\<close> is what \<^verbatim>\<open>clock_gettime\<close>
  gives: \<open>None\<close> when it returns -1, and then the function returns at once.
\<close>

definition print_measurement ::
  "timespec option \<Rightarrow> state_t \<Rightarrow> fault + (state_t \<times> measurement_line option)" where
  "print_measurement clk s =
     (case clk of
        None \<Rightarrow> Inr (s, None)
      | Some now \<Rightarrow>
         (let cd = cum_dev_errors s; d = dev_errors s;
              ch = cum_host_errors s; h = host_errors s;
              s1 = s\<lparr>cum_dev_errors :=
                        \<lparr>phy_error_cnt = phy_error_cnt cd + phy_error_cnt d,
                         ll_error_cnt = ll_error_cnt cd + ll_error_cnt d,
                         phy_errors = phy_errors cd OR phy_errors d,
                         ll_errors = ll_errors cd OR ll_errors d\<rparr>,
                     cum_host_errors :=
                        \<lparr>data_corrupt = data_corrupt ch + data_corrupt h,
                         error = error ch + error h,
                         length_he = length_he ch + length_he h,
                         stall = stall ch + stall h,
                         timeout = timeout ch + timeout h,
                         overflow = overflow ch + overflow h\<rparr>\<rparr>;
              tx = tx_bytes (ctrs s1) - tx_bytes (measurement s1);
              rx = rx_bytes (ctrs s1) - rx_bytes (measurement s1);
              ival_usec = usec_between now (measurement_time s1);
              total_time_usec = usec_between now (start_time s1)
          in case speeds ((tx + rx) * 8) (tx * 8) (rx * 8) ival_usec of
               Inl f \<Rightarrow> Inl f
             | Inr (m, tm, rm) \<Rightarrow>
            (case speeds ((rx_bytes (ctrs s1) + tx_bytes (ctrs s1)) * 8)
                         (tx_bytes (ctrs s1) * 8) (rx_bytes (ctrs s1) * 8) total_time_usec of
               Inl f \<Rightarrow> Inl f
             | Inr (am, atm, arm) \<Rightarrow>
                 Inr (s1\<lparr>dev_errors := u3loop_errors_zero,
                          host_errors := host_errors_zero,
                          measurement_time := now,
                          measurement := ctrs s1\<rparr>,
                      Some \<lparr>time_sec = total_time_usec div 1000000, line_ops = ops s1,
                            mbps = m, avg_mbps = am, tx_mbps = tm, tx_avg_mbps = atm,
                            rx_mbps = rm, rx_avg_mbps = arm,
                            host_error_cnt = data_corrupt h + error h + length_he h +
                                             stall h + timeout h + overflow h\<rparr>))))"

section \<open>The main loop and the drain of u3bench.c\<close>

text \<open>
  How a part of main that waits for the environment ends: it is \<open>Done\<close>; or the finite
  list of inputs given to the model is used up while the program still waits (\<open>Stuck\<close>,
  with the state at that point: the program has not returned); or it crashes.
\<close>

datatype 'a stage = Done 'a | Stuck pipeline | Crash fault pipeline

text \<open>
  The inputs of one turn of the main loop: the events the call of
  \<^verbatim>\<open>libusb_handle_events_timeout_completed\<close> handles, and what \<^verbatim>\<open>clock_gettime\<close> gives
  at line 761 and inside \<^verbatim>\<open>print_measurement\<close>.
\<close>

record loop_env =
  events :: "event list"
  clk_loop :: "timespec option"
  clk_measure :: "timespec option"

text \<open>
  Lines 753-788. The locals \<^verbatim>\<open>take_measurement\<close> and \<^verbatim>\<open>last_time_running\<close> are the pair;
  \<open>opt_time_limit\<close> and \<open>opt_report_ival\<close> are the options. The result \<open>Done (w, True)\<close> is
  the end of the loop, \<open>Done (w, False)\<close> is \<^verbatim>\<open>goto fail3\<close> at line 763.
\<close>

fun main_loop ::
  "int \<Rightarrow> int \<Rightarrow> loop_env list \<Rightarrow> bool \<times> int \<Rightarrow> pipeline \<Rightarrow> (pipeline \<times> bool) stage" where
  "main_loop opt_time_limit opt_report_ival [] l w =
     (if terminate w then Done (w, True) else Stuck w)"
| "main_loop opt_time_limit opt_report_ival (e # es) (take_measurement, last_time_running) w =
     (if terminate w then Done (w, True)
      else
        (let w1 = libusb_handle_events (events e) w in
         case clk_loop e of
           None \<Rightarrow> Done (w1, False)
         | Some now \<Rightarrow>
            (let start = start_time (state w1);
                 tr = tv_sec now - tv_sec start;
                 time_running = (if tv_nsec now < tv_nsec start then tr - 1 else tr);
                 changed = (time_running \<noteq> last_time_running);
                 w2 = (if changed \<and> opt_time_limit > 0 \<and> time_running \<ge> opt_time_limit
                       then w1\<lparr>terminate := True\<rparr> else w1);
                 tm = (if changed \<and> opt_report_ival > 0 \<and> time_running smod opt_report_ival = 0
                       then True else take_measurement);
                 last' = (if changed then time_running else last_time_running)
             in if tm \<or> terminate w2 then
                  (case print_measurement (clk_measure e) (state w2) of
                     Inl f \<Rightarrow> Crash f w2
                   | Inr (s', line) \<Rightarrow>
                       main_loop opt_time_limit opt_report_ival es (False, last')
                         (w2\<lparr>state := s'\<rparr>))
                else main_loop opt_time_limit opt_report_ival es (tm, last') w2)))"

text \<open>
  Lines 797-801: \<^verbatim>\<open>libusb_cancel_transfer\<close> on every entry that is not \<^verbatim>\<open>NULL\<close>. The
  cancellation itself is asynchronous: its effect is the completion libusb reports later.
\<close>

fun cancel_all :: "nat list \<Rightarrow> pipeline \<Rightarrow> pipeline stage" where
  "cancel_all [] w = Done w"
| "cancel_all (i # is) w =
     (case xfers w ! i of
        Indeterminate \<Rightarrow> Crash Indeterminate_read w
      | Null \<Rightarrow> cancel_all is w
      | Ptr t \<Rightarrow> cancel_all is (w\<lparr>calls := calls w @ [Cancel i]\<rparr>))"

text \<open>Lines 802-804: \<^verbatim>\<open>while (state.active_transfers != 0) libusb_handle_events(NULL);\<close>\<close>

fun drain_wait :: "event list list \<Rightarrow> pipeline \<Rightarrow> pipeline stage" where
  "drain_wait [] w = (if active_transfers (state w) = 0 then Done w else Stuck w)"
| "drain_wait (b # bs) w =
     (if active_transfers (state w) = 0 then Done w
      else drain_wait bs (libusb_handle_events b w))"

text \<open>
  Lines 807-820. \<^verbatim>\<open>xfers[i]->buffer\<close> dereferences the entry, whatever it holds;
  \<^verbatim>\<open>free\<close> of a block that is not live is a double free.
\<close>

fun free_all :: "nat list \<Rightarrow> pipeline \<Rightarrow> pipeline stage" where
  "free_all [] w = Done w"
| "free_all (i # is) w =
     (case xfers w ! i of
        Indeterminate \<Rightarrow> Crash Indeterminate_read w
      | Null \<Rightarrow> Crash SIGSEGV w
      | Ptr t \<Rightarrow>
         (case buffer t of
            None \<Rightarrow> free_all is w
          | Some a \<Rightarrow>
              if a \<in> heap w
              then free_all is
                     (w\<lparr>heap := heap w - {a},
                        calls := calls w @ [Free a (active_transfers (state w)), Free_transfer i]\<rparr>)
              else Crash Double_free w))"

text \<open>The block at the label \<^verbatim>\<open>fail3\<close> (lines 795-820); \<open>bs\<close> are the batches of events of
  the successive calls of \<^verbatim>\<open>libusb_handle_events\<close>.\<close>

definition drain :: "event list list \<Rightarrow> pipeline \<Rightarrow> pipeline stage" where
  "drain bs w =
     (case cancel_all [0..<BUFFER_CNT] w of
        Done w1 \<Rightarrow>
          (case drain_wait bs w1 of
             Done w2 \<Rightarrow> free_all [0..<BUFFER_CNT] w2
           | Stuck w2 \<Rightarrow> Stuck w2
           | Crash f w2 \<Rightarrow> Crash f w2)
      | Stuck w1 \<Rightarrow> Stuck w1
      | Crash f w1 \<Rightarrow> Crash f w1)"

text \<open>
  main from line 662 to line 820, after \<^verbatim>\<open>clock_gettime\<close> has given the start time:
  the pool is filled, the main loop runs, the pool is drained. \<^verbatim>\<open>print_report\<close> changes
  nothing.
\<close>

definition main_pipeline ::
  "timespec \<Rightarrow> test_mode \<Rightarrow> nat \<Rightarrow> (nat \<Rightarrow> slot_env) \<Rightarrow> int \<Rightarrow> int \<Rightarrow>
     loop_env list \<Rightarrow> event list list \<Rightarrow> pipeline stage" where
  "main_pipeline start opt_mode opt_transfer_size env opt_time_limit opt_report_ival es bs =
     (let w0 = pipeline_zero\<lparr>state := state_zero\<lparr>start_time := start, measurement_time := start\<rparr>\<rparr>
      in case fill_pool opt_mode opt_transfer_size env w0 of
           (w1, False) \<Rightarrow> drain bs w1
         | (w1, True) \<Rightarrow>
             (case main_loop opt_time_limit opt_report_ival es (False, 0) w1 of
                Done (w2, ok) \<Rightarrow> drain bs w2
              | Stuck w2 \<Rightarrow> Stuck w2
              | Crash f w2 \<Rightarrow> Crash f w2))"

text \<open>The state an outcome carries.\<close>

fun world_of :: "pipeline stage \<Rightarrow> pipeline" where
  "world_of (Done w) = w"
| "world_of (Stuck w) = w"
| "world_of (Crash f w) = w"

section \<open>u3loop.c: state, measurement and the synchronous cycle\<close>

text \<open>\<^verbatim>\<open>struct host_errors_t\<close> and \<^verbatim>\<open>struct state_t\<close> of u3loop.c (fields suffixed \<open>_l\<close>
  where u3bench.c has a field of the same name).\<close>

record host_errors_t_u3loop =
  data_corrupt_l :: c_int
  tx_stall :: c_int
  tx_timeout :: c_int
  tx_overflow :: c_int
  rx_stall :: c_int
  rx_timeout :: c_int
  rx_overflow :: c_int

record state_t_u3loop =
  start_time_l :: timespec
  ops_l :: u64
  ctrs_l :: stat_counters
  host_errors_l :: host_errors_t_u3loop
  dev_errors_l :: u3loop_errors
  cum_host_errors_l :: host_errors_t_u3loop
  cum_dev_errors_l :: u3loop_errors
  measurement_time_l :: timespec
  measurement_l :: stat_counters

definition host_errors_zero_u3loop :: host_errors_t_u3loop where
  "host_errors_zero_u3loop =
     \<lparr>data_corrupt_l = 0, tx_stall = 0, tx_timeout = 0, tx_overflow = 0,
      rx_stall = 0, rx_timeout = 0, rx_overflow = 0\<rparr>"

definition state_zero_u3loop :: state_t_u3loop where
  "state_zero_u3loop =
     \<lparr>start_time_l = \<lparr>tv_sec = 0, tv_nsec = 0\<rparr>, ops_l = 0,
      ctrs_l = \<lparr>tx_bytes = 0, rx_bytes = 0\<rparr>, host_errors_l = host_errors_zero_u3loop,
      dev_errors_l = u3loop_errors_zero, cum_host_errors_l = host_errors_zero_u3loop,
      cum_dev_errors_l = u3loop_errors_zero,
      measurement_time_l = \<lparr>tv_sec = 0, tv_nsec = 0\<rparr>,
      measurement_l = \<lparr>tx_bytes = 0, rx_bytes = 0\<rparr>\<rparr>"

text \<open>The line \<^verbatim>\<open>print_measurement\<close> of u3loop.c prints.\<close>

record measurement_line_u3loop =
  time_sec_l :: u64
  line_ops_l :: u64
  rx_mbps_l :: c_double
  avg_rx_mbps_l :: c_double
  host_error_cnt_l :: c_int
  line_dev_errors :: u3loop_errors

text \<open>Lines 219-226 of u3loop.c: one double under the guard.\<close>

definition speed :: "u64 \<Rightarrow> u64 \<Rightarrow> fault + c_double" where
  "speed a usec =
     (if usec \<noteq> 0 then (case udiv a usec of Inl f \<Rightarrow> Inl f | Inr x \<Rightarrow> Inr (Of_u64 x))
      else Inr INFINITY)"

text \<open>\<^verbatim>\<open>print_measurement\<close> of u3loop.c (lines 188-245).\<close>

definition print_measurement_u3loop ::
  "timespec option \<Rightarrow> state_t_u3loop \<Rightarrow> fault + (state_t_u3loop \<times> measurement_line_u3loop option)" where
  "print_measurement_u3loop clk s =
     (case clk of
        None \<Rightarrow> Inr (s, None)
      | Some now \<Rightarrow>
         (let cd = cum_dev_errors_l s; d = dev_errors_l s;
              ch = cum_host_errors_l s; h = host_errors_l s;
              s1 = s\<lparr>cum_dev_errors_l :=
                        \<lparr>phy_error_cnt = phy_error_cnt cd + phy_error_cnt d,
                         ll_error_cnt = ll_error_cnt cd + ll_error_cnt d,
                         phy_errors = phy_errors cd OR phy_errors d,
                         ll_errors = ll_errors cd OR ll_errors d\<rparr>,
                     cum_host_errors_l :=
                        \<lparr>data_corrupt_l = data_corrupt_l ch + data_corrupt_l h,
                         tx_stall = tx_stall ch + tx_stall h,
                         tx_timeout = tx_timeout ch + tx_timeout h,
                         tx_overflow = tx_overflow ch + tx_overflow h,
                         rx_stall = rx_stall ch + rx_stall h,
                         rx_timeout = rx_timeout ch + rx_timeout h,
                         rx_overflow = rx_overflow ch + rx_overflow h\<rparr>\<rparr>;
              rx = rx_bytes (ctrs_l s1) - rx_bytes (measurement_l s1);
              ival_usec = usec_between now (measurement_time_l s1);
              total_time_usec = usec_between now (start_time_l s1)
          in case speed (rx * 8) ival_usec of
               Inl f \<Rightarrow> Inl f
             | Inr rm \<Rightarrow>
            (case speed (rx_bytes (ctrs_l s1) * 8) total_time_usec of
               Inl f \<Rightarrow> Inl f
             | Inr arm \<Rightarrow>
                 Inr (s1\<lparr>dev_errors_l := u3loop_errors_zero,
                          host_errors_l := host_errors_zero_u3loop,
                          measurement_time_l := now,
                          measurement_l := ctrs_l s1\<rparr>,
                      Some \<lparr>time_sec_l = total_time_usec div 1000000, line_ops_l = ops_l s1,
                            rx_mbps_l = rm, avg_rx_mbps_l = arm,
                            host_error_cnt_l =
                              data_corrupt_l h + tx_stall h + tx_timeout h + tx_overflow h +
                              rx_stall h + rx_timeout h + rx_overflow h,
                            line_dev_errors = d\<rparr>))))"

text \<open>
  Lines 733-737 of u3loop.c: the control transfer \<^verbatim>\<open>U3LOOP_CMD_GET_ERROR_COUNTERS\<close> writes
  straight into \<^verbatim>\<open>state.dev_errors\<close>; \<open>d\<close> is what the buffer holds after the call. The
  returned length only decides whether a warning is printed.
\<close>

definition get_error_counters :: "u3loop_errors \<Rightarrow> state_t_u3loop \<Rightarrow> state_t_u3loop" where
  "get_error_counters d s = s\<lparr>dev_errors_l := d\<rparr>"

subsection \<open>The send/receive/compare cycle (u3loop.c, lines 645-700)\<close>

definition BLOCK_SIZE :: nat where "BLOCK_SIZE = 0x10000"

text \<open>\<^verbatim>\<open>memset(txbuf, 0xC5, BLOCK_SIZE)\<close>; \<^verbatim>\<open>txbuf\<close> is never written again.\<close>

definition txbuf :: "u8 list" where
  "txbuf = replicate BLOCK_SIZE 0xC5"

text \<open>
  What one \<^verbatim>\<open>libusb_bulk_transfer\<close> call does: its return value, the \<^verbatim>\<open>int\<close> it stores
  through the \<^verbatim>\<open>transferred\<close> pointer (0 when it stores nothing: the caller zeroes the
  variable first), and for a receive the bytes it writes to the start of the buffer.
\<close>

record bulk_result =
  bulk_err :: int
  bulk_transferred :: c_int
  bulk_data :: "u8 list"

datatype fatal = Send_failed int | Receive_failed int

text \<open>
  libc's \<^verbatim>\<open>memcmp\<close> over the first \<open>n\<close> bytes; the caller only tests the result against
  zero, so the sign of a difference is not modelled.
\<close>

definition memcmp :: "u8 list \<Rightarrow> u8 list \<Rightarrow> nat \<Rightarrow> int" where
  "memcmp a b n = (if take n a = take n b then 0 else 1)"

text \<open>The receive buffer after libusb has written \<open>d\<close> to its start (never past its end).\<close>

definition rx_write :: "u8 list \<Rightarrow> u8 list \<Rightarrow> u8 list" where
  "rx_write d rxbuf = take (length rxbuf) d @ drop (length d) rxbuf"

text \<open>
  One iteration of the \<^verbatim>\<open>while (true)\<close> loop of u3loop.c up to \<^verbatim>\<open>state.ops++\<close>
  (lines 655-700). \<^verbatim>\<open>transfered\<close> is a \<^verbatim>\<open>size_t\<close> that libusb writes as an \<^verbatim>\<open>int\<close>: on the
  little-endian 64-bit targets of the program its value is the zero extension of that
  \<^verbatim>\<open>int\<close> (\<open>ucast\<close>). \<open>rxbuf\<close> keeps its bytes from one cycle to the next.
\<close>

definition sync_cycle ::
  "bulk_result \<Rightarrow> bulk_result \<Rightarrow> state_t_u3loop \<times> u8 list \<Rightarrow> fatal + (state_t_u3loop \<times> u8 list)" where
  "sync_cycle tx rx = (\<lambda>(s, rxbuf).
     (let h = host_errors_l s in
      case (if bulk_err tx \<noteq> LIBUSB_SUCCESS then
              (if bulk_err tx = LIBUSB_ERROR_TIMEOUT
               then Inr (s\<lparr>host_errors_l := h\<lparr>tx_timeout := tx_timeout h + 1\<rparr>\<rparr>)
               else if bulk_err tx = LIBUSB_ERROR_PIPE
               then Inr (s\<lparr>host_errors_l := h\<lparr>tx_stall := tx_stall h + 1\<rparr>\<rparr>)
               else if bulk_err tx = LIBUSB_ERROR_OVERFLOW
               then Inr (s\<lparr>host_errors_l := h\<lparr>tx_overflow := tx_overflow h + 1\<rparr>\<rparr>)
               else Inl (Send_failed (bulk_err tx)))
            else Inr s) of
        Inl f \<Rightarrow> Inl f
      | Inr s1 \<Rightarrow>
         (let s2 = s1\<lparr>ctrs_l := (ctrs_l s1)\<lparr>tx_bytes :=
                      tx_bytes (ctrs_l s1) + ucast (bulk_transferred tx)\<rparr>\<rparr>;
              rxbuf' = rx_write (bulk_data rx) rxbuf;
              h2 = host_errors_l s2
          in case (if bulk_err rx \<noteq> LIBUSB_SUCCESS then
                     (if bulk_err rx = LIBUSB_ERROR_TIMEOUT
                      then Inr (s2\<lparr>host_errors_l := h2\<lparr>rx_timeout := rx_timeout h2 + 1\<rparr>\<rparr>)
                      else if bulk_err rx = LIBUSB_ERROR_PIPE
                      then Inr (s2\<lparr>host_errors_l := h2\<lparr>rx_stall := rx_stall h2 + 1\<rparr>\<rparr>)
                      else if bulk_err rx = LIBUSB_ERROR_OVERFLOW
                      then Inr (s2\<lparr>host_errors_l := h2\<lparr>rx_overflow := rx_overflow h2 + 1\<rparr>\<rparr>)
                      else Inl (Receive_failed (bulk_err rx)))
                   else Inr s2) of
               Inl f \<Rightarrow> Inl f
             | Inr s3 \<Rightarrow>
                (let s4 = s3\<lparr>ctrs_l := (ctrs_l s3)\<lparr>rx_bytes :=
                             rx_bytes (ctrs_l s3) + ucast (bulk_transferred rx)\<rparr>\<rparr>;
                     h4 = host_errors_l s4;
                     s5 = (if memcmp txbuf rxbuf' BLOCK_SIZE \<noteq> 0
                           then s4\<lparr>host_errors_l := h4\<lparr>data_corrupt_l := data_corrupt_l h4 + 1\<rparr>\<rparr>
                           else s4)
                 in Inr (s5\<lparr>ops_l := ops_l s5 + 1\<rparr>, rxbuf')))))"

text \<open>A run of cycles from a state, stopping at the first fatal error (\<^verbatim>\<open>goto fail3\<close>).\<close>

fun sync_cycles ::
  "(bulk_result \<times> bulk_result) list \<Rightarrow> state_t_u3loop \<times> u8 list \<Rightarrow>
     fatal + (state_t_u3loop \<times> u8 list)" where
  "sync_cycles [] c = Inr c"
| "sync_cycles ((tx, rx) # es) c =
     (case sync_cycle tx rx c of Inl f \<Rightarrow> Inl f | Inr c' \<Rightarrow> sync_cycles es c')"

section \<open>Device lookup and the wait for re-enumeration\<close>

text \<open>
  What libusb reports for one entry of the device list: the results of
  \<^verbatim>\<open>libusb_get_device_descriptor\<close>, \<^verbatim>\<open>libusb_open\<close>,
  \<^verbatim>\<open>libusb_get_string_descriptor_ascii\<close> (its return value is the number of bytes read, or
  a negative error code; \<open>serial_data\<close> is the string a successful read stores) and
  \<^verbatim>\<open>libusb_claim_interface\<close>.
\<close>

record usb_device =
  desc_err :: int
  idVendor :: u16
  idProduct :: u16
  open_err :: int
  serial_ret :: int
  serial_data :: string
  claim_err :: int

text \<open>How one turn of the loop of \<^verbatim>\<open>open_device\<close> ends, by the line that ends it.\<close>

datatype probe =
    No_descriptor
  | Other_id
  | Open_failed
  | Serial_rejected
  | Found "string option"
  | Not_selected

text \<open>
  The body of the \<^verbatim>\<open>for\<close> loop of \<^verbatim>\<open>open_device\<close> (u3bench.c lines 304-349, u3loop.c
  lines 317-362; the two differ only in where \<open>vid\<close> and \<open>pid\<close> come from).
  \<^verbatim>\<open>serial_str\<close> is an uninitialised array: it is set (\<open>Some\<close>) only by a read that
  returns a length. \<^verbatim>\<open>strcmp\<close> on the unset array reads indeterminate memory. The
  diagnostics printed under \<^verbatim>\<open>verbose\<close> are not modelled.
\<close>

definition open_device_body ::
  "u16 \<Rightarrow> u16 \<Rightarrow> string option \<Rightarrow> usb_device \<Rightarrow> fault + probe" where
  "open_device_body vid pid serial_number d =
     (if desc_err d \<noteq> LIBUSB_SUCCESS then Inr No_descriptor
      else if idVendor d \<noteq> vid \<or> idProduct d \<noteq> pid then Inr Other_id
      else if open_err d \<noteq> LIBUSB_SUCCESS then Inr Open_failed
      else
        (let err = serial_ret d;
             serial_str = (if 0 \<le> err then Some (serial_data d) else None)
         in if err = LIBUSB_SUCCESS then Inr Serial_rejected
            else (case serial_number of
                    None \<Rightarrow> Inr (Found serial_str)
                  | Some sn \<Rightarrow>
                     (case serial_str of
                        None \<Rightarrow> Inl Indeterminate_read
                      | Some str \<Rightarrow> if str = sn then Inr (Found serial_str) else Inr Not_selected))))"

text \<open>The loop \<^verbatim>\<open>for (i=0; i < cnt && !found; i++)\<close>: the index and the entry it stops at.\<close>

fun open_device_loop ::
  "u16 \<Rightarrow> u16 \<Rightarrow> string option \<Rightarrow> usb_device list \<Rightarrow> nat \<Rightarrow> fault + (nat \<times> usb_device) option" where
  "open_device_loop vid pid serial_number [] i = Inr None"
| "open_device_loop vid pid serial_number (d # ds) i =
     (case open_device_body vid pid serial_number d of
        Inl f \<Rightarrow> Inl f
      | Inr (Found str) \<Rightarrow> Inr (Some (i, d))
      | Inr _ \<Rightarrow> open_device_loop vid pid serial_number ds (Suc i))"

text \<open>
  \<^verbatim>\<open>open_device\<close> of u3bench.c (lines 287-366). \<open>bus\<close> is the device list of
  \<^verbatim>\<open>libusb_get_device_list\<close>, \<open>None\<close> when that call fails. The result is the handle
  (the index of the device in the list) or \<^verbatim>\<open>NULL\<close>.
\<close>

definition open_device ::
  "u16 \<Rightarrow> u16 \<Rightarrow> string option \<Rightarrow> usb_device list option \<Rightarrow> fault + nat option" where
  "open_device vid pid serial_number bus =
     (case bus of
        None \<Rightarrow> Inr None
      | Some devs \<Rightarrow>
         (case open_device_loop vid pid serial_number devs 0 of
            Inl f \<Rightarrow> Inl f
          | Inr None \<Rightarrow> Inr None
          | Inr (Some (i, d)) \<Rightarrow>
              if claim_err d \<noteq> LIBUSB_SUCCESS then Inr None else Inr (Some i)))"

definition VID :: u16 where "VID = 0x0403"
definition PID :: u16 where "PID = 0xff0b"

text \<open>\<^verbatim>\<open>open_device\<close> of u3loop.c (lines 300-379): the same code over the macros VID and PID.\<close>

definition open_device_u3loop :: "string option \<Rightarrow> usb_device list option \<Rightarrow> fault + nat option" where
  "open_device_u3loop serial_number bus =
     (case bus of
        None \<Rightarrow> Inr None
      | Some devs \<Rightarrow>
         (case open_device_loop VID PID serial_number devs 0 of
            Inl f \<Rightarrow> Inl f
          | Inr None \<Rightarrow> Inr None
          | Inr (Some (i, d)) \<Rightarrow>
              if claim_err d \<noteq> LIBUSB_SUCCESS then Inr None else Inr (Some i)))"

definition MAX_DEVICE_WAIT :: nat where "MAX_DEVICE_WAIT = 10"

text \<open>What the wait does, in order: \<^verbatim>\<open>sleep(1)\<close> and a call of \<^verbatim>\<open>open_device\<close>.\<close>

datatype wait_action = Sleep nat | Poll

datatype wait_result = Reenumerated nat | Reenumeration_timeout | Wait_fault fault

text \<open>
  Lines 607-618 of u3bench.c and 568-579 of u3loop.c:
  \<^verbatim>\<open>for (i=0; dev == NULL && i < MAX_DEVICE_WAIT; i++) { sleep(1); dev = open_device(...); }\<close>
  followed by the test \<^verbatim>\<open>dev == NULL\<close>. \<open>poll i\<close> is the call of \<^verbatim>\<open>open_device\<close> in turn
  \<open>i\<close>; the loop is entered with \<^verbatim>\<open>dev == NULL\<close> and goes on only while it stays so.
\<close>

function reenumeration_loop ::
  "(nat \<Rightarrow> fault + nat option) \<Rightarrow> nat \<Rightarrow> wait_action list \<Rightarrow> wait_result \<times> wait_action list" where
  "reenumeration_loop poll i acts =
     (if i < MAX_DEVICE_WAIT then
        (case poll i of
           Inl f \<Rightarrow> (Wait_fault f, acts @ [Sleep 1, Poll])
         | Inr (Some dev) \<Rightarrow> (Reenumerated dev, acts @ [Sleep 1, Poll])
         | Inr None \<Rightarrow> reenumeration_loop poll (Suc i) (acts @ [Sleep 1, Poll]))
      else (Reenumeration_timeout, acts))"
  by pat_completeness auto
termination
  by (relation "measure (\<lambda>(poll, i, acts). MAX_DEVICE_WAIT - i)") auto

declare reenumeration_loop.simps [simp del]

text \<open>The wait of u3bench.c; \<open>bus i\<close> is the device list at the time of turn \<open>i\<close>.\<close>

definition reenumeration_wait ::
  "u16 \<Rightarrow> u16 \<Rightarrow> string option \<Rightarrow> (nat \<Rightarrow> usb_device list option) \<Rightarrow> wait_result \<times> wait_action list" where
  "reenumeration_wait vid pid serial_number bus =
     reenumeration_loop (\<lambda>i. open_device vid pid serial_number (bus i)) 0 []"

text \<open>The wait of u3loop.c.\<close>

definition reenumeration_wait_u3loop ::
  "string option \<Rightarrow> (nat \<Rightarrow> usb_device list option) \<Rightarrow> wait_result \<times> wait_action list" where
  "reenumeration_wait_u3loop serial_number bus =
     reenumeration_loop (\<lambda>i. open_device_u3loop serial_number (bus i)) 0 []"

section \<open>Predicates and examples used in the theorems\<close>

text \<open>The state an outcome of the main loop carries.\<close>

fun loop_world :: "(pipeline \<times> bool) stage \<Rightarrow> pipeline" where
  "loop_world (Done (w, ok)) = w"
| "loop_world (Stuck w) = w"
| "loop_world (Crash f w) = w"

text \<open>
  The bookkeeping invariant of the pool: \<^verbatim>\<open>state.active_transfers\<close> is the number of
  transfers libusb holds as submitted, and those are entries of \<^verbatim>\<open>xfers\<close>.
\<close>

definition pool_inv :: "pipeline \<Rightarrow> bool" where
  "pool_inv w = (unat (active_transfers (state w)) = card (flying w) \<and> flying w \<subseteq> {..<BUFFER_CNT})"

text \<open>The calls of \<^verbatim>\<open>free\<close> in a log: the block, and \<^verbatim>\<open>active_transfers\<close> at the call.\<close>

fun frees :: "lib_call list \<Rightarrow> (nat \<times> u32) list" where
  "frees [] = []"
| "frees (Free a n # cs) = (a, n) # frees cs"
| "frees (c # cs) = frees cs"

text \<open>The buffer of entry \<open>i\<close> of \<^verbatim>\<open>xfers\<close> (none when the entry or its buffer is \<^verbatim>\<open>NULL\<close>),
  and the buffers of the whole pool in the order of the entries.\<close>

definition slot_buffer :: "pipeline \<Rightarrow> nat \<Rightarrow> nat list" where
  "slot_buffer w i =
     (case xfers w ! i of
        Ptr t \<Rightarrow> (case buffer t of Some a \<Rightarrow> [a] | None \<Rightarrow> [])
      | _ \<Rightarrow> [])"

definition pool_buffers :: "pipeline \<Rightarrow> nat list" where
  "pool_buffers w = concat (map (slot_buffer w) [0..<BUFFER_CNT])"

text \<open>
  A pool whose allocation loop ran to its end: every entry is a transfer with its own
  live buffer (the block named by the entry's index).
\<close>

definition wf_pool :: "pipeline \<Rightarrow> bool" where
  "wf_pool w = (length (xfers w) = BUFFER_CNT \<and>
     (\<forall>i<BUFFER_CNT. \<exists>t. xfers w ! i = Ptr t \<and> buffer t = Some i) \<and>
     {..<BUFFER_CNT} \<subseteq> heap w)"

text \<open>The completion libusb reports for a cancelled transfer.\<close>

definition cancelled :: "nat \<Rightarrow> event" where
  "cancelled i = Completes \<lparr>slot = i, cstatus = LIBUSB_TRANSFER_CANCELLED, cactual_length = 0, resubmit_res = 0\<rparr>"

text \<open>
  Environments for the examples: every allocation succeeds; the first submission succeeds
  for no entry, for the even entries, for every entry, or for entry 0 only.
\<close>

definition env_none :: "nat \<Rightarrow> slot_env" where
  "env_none i = \<lparr>alloc_ok = True, malloc_ok = True, submit_res = -1\<rparr>"

definition env_even :: "nat \<Rightarrow> slot_env" where
  "env_even i = \<lparr>alloc_ok = True, malloc_ok = True, submit_res = (if even i then 0 else -1)\<rparr>"

definition env_all :: "nat \<Rightarrow> slot_env" where
  "env_all i = \<lparr>alloc_ok = True, malloc_ok = True, submit_res = 0\<rparr>"

definition env_first :: "nat \<Rightarrow> slot_env" where
  "env_first i = \<lparr>alloc_ok = True, malloc_ok = True, submit_res = (if i = 0 then 0 else -1)\<rparr>"

text \<open>The pool after the allocation loop in such an environment.\<close>

definition pool_after :: "(nat \<Rightarrow> slot_env) \<Rightarrow> pipeline" where
  "pool_after env = fst (fill_pool U3LOOP_MODE_READ_WRITE 1024 env pipeline_zero)"

text \<open>
  A completion with a transport error whose resubmission fails; a turn of the main loop
  that handles it at time zero; the state with one transfer counted as active.
\<close>

definition error_completion :: completion where
  "error_completion = \<lparr>slot = 0, cstatus = LIBUSB_TRANSFER_ERROR, cactual_length = 0, resubmit_res = -1\<rparr>"

definition time_zero :: timespec where "time_zero = \<lparr>tv_sec = 0, tv_nsec = 0\<rparr>"

definition one_turn :: loop_env where
  "one_turn = \<lparr>events = [Completes error_completion], clk_loop = Some \<lparr>tv_sec = 0, tv_nsec = 0\<rparr>, clk_measure = None\<rparr>"

definition one_flying :: pipeline where
  "one_flying = pipeline_zero\<lparr>state := state_zero\<lparr>active_transfers := 1\<rparr>\<rparr>"

text \<open>
  An environment in which \<^verbatim>\<open>libusb_alloc_transfer\<close> returns \<^verbatim>\<open>NULL\<close> for the last entry of the
  pool (every allocation and submission before it succeeds), and the pool \<^verbatim>\<open>main\<close> then
  enters the block at \<^verbatim>\<open>fail3\<close> with.
\<close>

definition env_last_fails :: "nat \<Rightarrow> slot_env" where
  "env_last_fails i = \<lparr>alloc_ok = (i \<noteq> 63), malloc_ok = True, submit_res = 0\<rparr>"

definition pool_last_fails :: pipeline where
  "pool_last_fails = fst (fill_pool U3LOOP_MODE_READ_WRITE 1024 env_last_fails pipeline_zero)"

subsection \<open>Measurements: predicates and examples\<close>

text \<open>The counters of a \<open>host_errors_t\<close> in the order of the struct, for both programs.\<close>

definition host_counters :: "host_errors_t \<Rightarrow> c_int list" where
  "host_counters h = [data_corrupt h, error h, length_he h, stall h, timeout h, overflow h]"

definition host_counters_u3loop :: "host_errors_t_u3loop \<Rightarrow> c_int list" where
  "host_counters_u3loop h =
     [data_corrupt_l h, tx_stall h, tx_timeout h, tx_overflow h, rx_stall h, rx_timeout h, rx_overflow h]"

text \<open>
  Adding the interval counters to the cumulative ones stays within \<^verbatim>\<open>int\<close> (beyond it the
  addition is undefined in C), with interval counters that are not negative.
\<close>

definition counts_fit :: "c_int list \<Rightarrow> c_int list \<Rightarrow> bool" where
  "counts_fit cum ival = list_all2 (\<lambda>c h. 0 \<le> sint h \<and> sint c + sint h < 2 ^ 31) cum ival"

text \<open>No counter of the second list is below its counterpart in the first (as \<^verbatim>\<open>int\<close>).\<close>

definition counts_le :: "c_int list \<Rightarrow> c_int list \<Rightarrow> bool" where
  "counts_le old new = list_all2 (\<lambda>a b. sint a \<le> sint b) old new"

text \<open>Adding the interval device error counts to the cumulative ones does not wrap a
  \<^verbatim>\<open>uint32_t\<close>.\<close>

definition dev_counts_fit :: "u3loop_errors \<Rightarrow> u3loop_errors \<Rightarrow> bool" where
  "dev_counts_fit cum ival =
     (unat (phy_error_cnt cum) + unat (phy_error_cnt ival) < 2 ^ 32 \<and>
      unat (ll_error_cnt cum) + unat (ll_error_cnt ival) < 2 ^ 32)"

text \<open>
  States for the examples: 1,000,000 bytes received since the last measurement, interval
  and cumulative errors, physical-layer error bits 0x04 in the interval and 0x01 so far.
\<close>

definition snapshot_example :: state_t where
  "snapshot_example = state_zero
     \<lparr>ctrs := \<lparr>tx_bytes = 0, rx_bytes = 1000000\<rparr>,
      host_errors := host_errors_zero\<lparr>timeout := 2\<rparr>,
      dev_errors := \<lparr>phy_error_cnt = 3, ll_error_cnt = 0, phy_errors = 0x04, ll_errors = 0\<rparr>,
      cum_host_errors := host_errors_zero\<lparr>timeout := 5\<rparr>,
      cum_dev_errors := \<lparr>phy_error_cnt = 1, ll_error_cnt = 0, phy_errors = 0x01, ll_errors = 0\<rparr>\<rparr>"

definition snapshot_example_u3loop :: state_t_u3loop where
  "snapshot_example_u3loop = state_zero_u3loop
     \<lparr>ctrs_l := \<lparr>tx_bytes = 1000000, rx_bytes = 1000000\<rparr>,
      host_errors_l := host_errors_zero_u3loop\<lparr>rx_timeout := 2\<rparr>,
      dev_errors_l := \<lparr>phy_error_cnt = 3, ll_error_cnt = 0, phy_errors = 0x04, ll_errors = 0\<rparr>,
      cum_host_errors_l := host_errors_zero_u3loop\<lparr>rx_timeout := 5\<rparr>,
      cum_dev_errors_l := \<lparr>phy_error_cnt = 1, ll_error_cnt = 0, phy_errors = 0x01, ll_errors = 0\<rparr>\<rparr>"

text \<open>A clock reading 125,000 microseconds after time zero.\<close>

definition after_125ms :: timespec where "after_125ms = \<lparr>tv_sec = 0, tv_nsec = 125000000\<rparr>"

text \<open>The state after \<^verbatim>\<open>print_measurement\<close>.\<close>

definition snapshot :: "timespec option \<Rightarrow> state_t \<Rightarrow> state_t" where
  "snapshot clk s = fst (projr (print_measurement clk s))"

definition snapshot_u3loop :: "timespec option \<Rightarrow> state_t_u3loop \<Rightarrow> state_t_u3loop" where
  "snapshot_u3loop clk s = fst (projr (print_measurement_u3loop clk s))"

text \<open>
  Two answers of the device to \<^verbatim>\<open>U3LOOP_CMD_GET_ERROR_COUNTERS\<close>, and the state of u3loop.c
  after a measurement that read the first and a transfer that read the second.
\<close>

definition dev_report_full :: u3loop_errors where
  "dev_report_full = \<lparr>phy_error_cnt = 0xFFFFFFFF, ll_error_cnt = 0, phy_errors = 1, ll_errors = 0\<rparr>"

definition dev_report_one :: u3loop_errors where
  "dev_report_one = \<lparr>phy_error_cnt = 1, ll_error_cnt = 0, phy_errors = 1, ll_errors = 0\<rparr>"

definition wrap_before :: state_t_u3loop where
  "wrap_before = get_error_counters dev_report_one
     (snapshot_u3loop (Some time_zero) (get_error_counters dev_report_full state_zero_u3loop))"

subsection \<open>Device lookup: examples\<close>

text \<open>\<open>k\<close> turns of the wait: \<^verbatim>\<open>sleep(1)\<close>, then a call of \<^verbatim>\<open>open_device\<close>, \<open>k\<close> times.\<close>

definition turns :: "nat \<Rightarrow> wait_action list" where
  "turns k = concat (replicate k [Sleep 1, Poll])"

text \<open>
  Devices and buses for the examples: a loopback plug whose serial number reads; a bus
  from which it is absent for the first 11 turns, or for the first 3; a plug whose
  serial descriptor read fails with LIBUSB_ERROR_IO (-1); one whose read returns 0.
\<close>

definition good_device :: usb_device where
  "good_device = \<lparr>desc_err = 0, idVendor = VID, idProduct = PID, open_err = 0,
     serial_ret = 8, serial_data = ''PMU3XXXX'', claim_err = 0\<rparr>"

definition absent_for_11 :: "nat \<Rightarrow> usb_device list option" where
  "absent_for_11 i = (if i < 11 then Some [] else Some [good_device])"

definition back_after_3 :: "nat \<Rightarrow> usb_device list option" where
  "back_after_3 i = (if i < 3 then Some [] else Some [good_device])"

definition unreadable_device :: usb_device where
  "unreadable_device = \<lparr>desc_err = 0, idVendor = VID, idProduct = PID, open_err = 0,
     serial_ret = -1, serial_data = [], claim_err = 0\<rparr>"

definition empty_serial_device :: usb_device where
  "empty_serial_device = \<lparr>desc_err = 0, idVendor = VID, idProduct = PID, open_err = 0,
     serial_ret = 0, serial_data = [], claim_err = 0\<rparr>"

subsection \<open>Byte counters: sums and examples\<close>

text \<open>libusb calls back for the completion (see \<open>deliver\<close>).\<close>

definition delivered :: "completion \<Rightarrow> pipeline \<Rightarrow> bool" where
  "delivered c w =
     (slot c \<in> flying w \<and> slot c < length (xfers w) \<and>
      (case xfers w ! slot c of Ptr t \<Rightarrow> True | _ \<Rightarrow> False))"

text \<open>
  The sum of \<^verbatim>\<open>actual_length\<close> (converted as the callback converts it) over the completions
  of a batch that are delivered with status COMPLETED.
\<close>

fun success_bytes :: "event list \<Rightarrow> pipeline \<Rightarrow> u64" where
  "success_bytes [] w = 0"
| "success_bytes (e # es) w =
     (case e of
        Completes c \<Rightarrow>
          if delivered c w \<and> cstatus c = LIBUSB_TRANSFER_COMPLETED
          then scast (cactual_length c) else 0
      | Signal \<Rightarrow> 0) + success_bytes es (occur e w)"

text \<open>\<^verbatim>\<open>tx_bytes + rx_bytes\<close>.\<close>

definition total_bytes :: "stat_counters \<Rightarrow> u64" where
  "total_bytes c = tx_bytes c + rx_bytes c"

text \<open>
  For one cycle of u3loop.c: the byte counts libusb reports for the send and the receive,
  and the part of them that belongs to calls returning \<^verbatim>\<open>LIBUSB_SUCCESS\<close>.
\<close>

definition reported_bytes :: "bulk_result \<times> bulk_result \<Rightarrow> u64" where
  "reported_bytes = (\<lambda>(tx, rx). ucast (bulk_transferred tx) + ucast (bulk_transferred rx))"

definition successful_bytes :: "bulk_result \<times> bulk_result \<Rightarrow> u64" where
  "successful_bytes = (\<lambda>(tx, rx).
     (if bulk_err tx = LIBUSB_SUCCESS then ucast (bulk_transferred tx) else 0) +
     (if bulk_err rx = LIBUSB_SUCCESS then ucast (bulk_transferred rx) else 0))"

text \<open>
  Examples: a successful completion of 512 bytes and a timed-out one; a send and an
  echoed receive of a whole block; a receive with byte 7 flipped; a send that times out
  after 1024 bytes; a receive buffer of zeroes; the state after one cycle from the zero
  state.
\<close>

definition ok_completion :: completion where
  "ok_completion = \<lparr>slot = 0, cstatus = LIBUSB_TRANSFER_COMPLETED, cactual_length = 512, resubmit_res = 0\<rparr>"

definition timeout_completion :: completion where
  "timeout_completion = \<lparr>slot = 1, cstatus = LIBUSB_TRANSFER_TIMED_OUT, cactual_length = 100, resubmit_res = 0\<rparr>"

definition send_ok :: bulk_result where
  "send_ok = \<lparr>bulk_err = 0, bulk_transferred = 0x10000, bulk_data = []\<rparr>"

definition send_timeout_partial :: bulk_result where
  "send_timeout_partial = \<lparr>bulk_err = LIBUSB_ERROR_TIMEOUT, bulk_transferred = 1024, bulk_data = []\<rparr>"

definition receive_echo :: bulk_result where
  "receive_echo = \<lparr>bulk_err = 0, bulk_transferred = 0x10000, bulk_data = txbuf\<rparr>"

definition receive_flipped :: bulk_result where
  "receive_flipped = \<lparr>bulk_err = 0, bulk_transferred = 0x10000, bulk_data = txbuf[7 := 0x45]\<rparr>"

definition rxbuf_start :: "u8 list" where
  "rxbuf_start = replicate BLOCK_SIZE 0"

definition after_cycle :: "bulk_result \<Rightarrow> bulk_result \<Rightarrow> state_t_u3loop" where
  "after_cycle tx rx = fst (projr (sync_cycle tx rx (state_zero_u3loop, rxbuf_start)))"

section \<open>Theorems\<close>

subsection \<open>Facts about the callback\<close>

lemma dir_bit:
  "(x AND LIBUSB_ENDPOINT_DIR_MASK = LIBUSB_ENDPOINT_OUT) = (\<not> bit (x::u8) 7)"
proof -
  have "(128::u8) = 2 ^ 7" by simp
  then show ?thesis
    unfolding LIBUSB_ENDPOINT_DIR_MASK_def LIBUSB_ENDPOINT_OUT_def
    by (simp only: and_exp_eq_0_iff_not_bit)
qed

lemma resubmit_fields:
  "ops (state (transfer_cb_resubmit env i w)) = ops (state w)"
  "ctrs (state (transfer_cb_resubmit env i w)) = ctrs (state w)"
  "host_errors (state (transfer_cb_resubmit env i w)) = host_errors (state w)"
  "stats (state (transfer_cb_resubmit env i w)) = stats (state w)"
  by (simp_all add: transfer_cb_resubmit_def libusb_submit_transfer_def Let_def stats_def)

text \<open>
  Claim C1. For a completion delivered to \<open>transfer_cb\<close> with status
  \<open>LIBUSB_TRANSFER_COMPLETED\<close> the callback adds one to \<open>ops\<close>, adds \<open>actual_length\<close> to
  \<open>rx_bytes\<close> when the endpoint is inbound and to \<open>tx_bytes\<close> when it is outbound (the other
  byte counter keeps its value), and adds one to the interval counter \<open>host_errors.length\<close>
  exactly when \<open>actual_length\<close> differs from \<open>length\<close>; no other interval host-error
  counter changes. For the statuses ERROR, TIMED_OUT, STALL and OVERFLOW the only change to
  the statistics is one added to the matching interval host-error counter.
\<close>

theorem transfer_cb_counters:
  "let s = state w; s' = state (transfer_cb env i t w);
       he = host_errors s; he' = host_errors s' in
   (status t = LIBUSB_TRANSFER_COMPLETED \<longrightarrow>
      ops s' = ops s + 1 \<and>
      (if is_inbound t
       then rx_bytes (ctrs s') = rx_bytes (ctrs s) + scast (actual_length t) \<and>
            tx_bytes (ctrs s') = tx_bytes (ctrs s)
       else tx_bytes (ctrs s') = tx_bytes (ctrs s) + scast (actual_length t) \<and>
            rx_bytes (ctrs s') = rx_bytes (ctrs s)) \<and>
      length_he he' =
        (if actual_length t \<noteq> length_xfer t then length_he he + 1 else length_he he) \<and>
      he'\<lparr>length_he := 0\<rparr> = he\<lparr>length_he := 0\<rparr>) \<and>
   (status t = LIBUSB_TRANSFER_ERROR \<longrightarrow>
      stats s' = stats (s\<lparr>host_errors := he\<lparr>error := error he + 1\<rparr>\<rparr>)) \<and>
   (status t = LIBUSB_TRANSFER_TIMED_OUT \<longrightarrow>
      stats s' = stats (s\<lparr>host_errors := he\<lparr>timeout := timeout he + 1\<rparr>\<rparr>)) \<and>
   (status t = LIBUSB_TRANSFER_STALL \<longrightarrow>
      stats s' = stats (s\<lparr>host_errors := he\<lparr>stall := stall he + 1\<rparr>\<rparr>)) \<and>
   (status t = LIBUSB_TRANSFER_OVERFLOW \<longrightarrow>
      stats s' = stats (s\<lparr>host_errors := he\<lparr>overflow := overflow he + 1\<rparr>\<rparr>))"
  apply (cases "status t")
  apply (simp_all add: transfer_cb_def Let_def resubmit_fields dir_bit is_inbound_def)
  apply (simp_all add: stats_def)
  done

theorem transfer_cb_counters_witness:
  "ops (state (transfer_cb 0 0 (example_transfer BULK_OUT LIBUSB_TRANSFER_COMPLETED) pipeline_zero)) = 1 \<and>
   tx_bytes (ctrs (state
     (transfer_cb 0 0 (example_transfer BULK_OUT LIBUSB_TRANSFER_COMPLETED) pipeline_zero))) = 512 \<and>
   rx_bytes (ctrs (state
     (transfer_cb 0 0 (example_transfer BULK_IN LIBUSB_TRANSFER_COMPLETED) pipeline_zero))) = 512 \<and>
   length_he (host_errors (state
     (transfer_cb 0 0 (example_transfer BULK_OUT LIBUSB_TRANSFER_COMPLETED) pipeline_zero))) = 1 \<and>
   error (host_errors (state
     (transfer_cb 0 0 (example_transfer BULK_OUT LIBUSB_TRANSFER_ERROR) pipeline_zero))) = 1 \<and>
   timeout (host_errors (state
     (transfer_cb 0 0 (example_transfer BULK_IN LIBUSB_TRANSFER_TIMED_OUT) pipeline_zero))) = 1 \<and>
   stall (host_errors (state
     (transfer_cb 0 0 (example_transfer BULK_IN LIBUSB_TRANSFER_STALL) pipeline_zero))) = 1 \<and>
   overflow (host_errors (state
     (transfer_cb 0 0 (example_transfer BULK_IN LIBUSB_TRANSFER_OVERFLOW) pipeline_zero))) = 1"
  using transfer_cb_counters [of pipeline_zero 0 0 "example_transfer BULK_OUT LIBUSB_TRANSFER_COMPLETED"]
        transfer_cb_counters [of pipeline_zero 0 0 "example_transfer BULK_IN LIBUSB_TRANSFER_COMPLETED"]
        transfer_cb_counters [of pipeline_zero 0 0 "example_transfer BULK_OUT LIBUSB_TRANSFER_ERROR"]
        transfer_cb_counters [of pipeline_zero 0 0 "example_transfer BULK_IN LIBUSB_TRANSFER_TIMED_OUT"]
        transfer_cb_counters [of pipeline_zero 0 0 "example_transfer BULK_IN LIBUSB_TRANSFER_STALL"]
        transfer_cb_counters [of pipeline_zero 0 0 "example_transfer BULK_IN LIBUSB_TRANSFER_OVERFLOW"]
  by (simp add: Let_def example_transfer_def BULK_OUT_def BULK_IN_def LIBUSB_ENDPOINT_IN_def
        LIBUSB_ENDPOINT_OUT_def LIBUSB_ENDPOINT_DIR_MASK_def LIBUSB_SUCCESS_def
        pipeline_zero_def state_zero_def host_errors_zero_def
        transfer_cb_def transfer_cb_resubmit_def libusb_submit_transfer_def)

text \<open>
  Claim C3. For a completion delivered to \<open>transfer_cb\<close>: with status CANCELLED no
  statistics counter changes and no submission is made. The callback reads the global
  \<open>terminate\<close> at line 413, after its \<^verbatim>\<open>switch\<close>: the flag is set at that point exactly when
  it was set before the callback or the status is NO_DEVICE, for which the callback sets
  it itself. When the flag is set, no submission is made, whatever the status. Otherwise
  (status not CANCELLED) exactly one call of \<^verbatim>\<open>libusb_submit_transfer\<close> is made at once; when
  it succeeds the transfer is in flight again and \<open>active_transfers\<close> is back at its value,
  and when it fails the transfer stays out of the pool, \<open>active_transfers\<close> stays
  decremented and no further call is made.
\<close>

theorem transfer_cb_resubmission:
  "let w' = transfer_cb env i t w in
   (status t = LIBUSB_TRANSFER_CANCELLED \<longrightarrow>
      stats (state w') = stats (state w) \<and> calls w' = calls w \<and> flying w' = flying w \<and>
      terminate w' = terminate w) \<and>
   (status t \<noteq> LIBUSB_TRANSFER_CANCELLED \<longrightarrow>
      terminate w' = (terminate w \<or> status t = LIBUSB_TRANSFER_NO_DEVICE)) \<and>
   (terminate w' \<longrightarrow>
      calls w' = calls w \<and> flying w' = flying w \<and>
      active_transfers (state w') = active_transfers (state w) - 1) \<and>
   (\<not> terminate w' \<and> status t \<noteq> LIBUSB_TRANSFER_CANCELLED \<longrightarrow>
      calls w' = calls w @ [Submit i] \<and>
      (if env = LIBUSB_SUCCESS \<and> i \<notin> flying w
       then flying w' = insert i (flying w) \<and>
            active_transfers (state w') = active_transfers (state w)
       else flying w' = flying w \<and>
            active_transfers (state w') = active_transfers (state w) - 1))"
  by (cases "status t")
     (auto simp add: transfer_cb_def Let_def transfer_cb_resubmit_def libusb_submit_transfer_def
        stats_def LIBUSB_SUCCESS_def LIBUSB_ERROR_BUSY_def)

theorem transfer_cb_resubmission_witness:
  "calls (transfer_cb 0 0 (example_transfer BULK_IN LIBUSB_TRANSFER_CANCELLED) one_flying) = [] \<and>
   stats (state (transfer_cb 0 0 (example_transfer BULK_IN LIBUSB_TRANSFER_CANCELLED) one_flying)) =
     stats (state one_flying) \<and>
   calls (transfer_cb 0 0 (example_transfer BULK_IN LIBUSB_TRANSFER_COMPLETED) (terminator one_flying)) = [] \<and>
   terminate (transfer_cb 0 0 (example_transfer BULK_IN LIBUSB_TRANSFER_NO_DEVICE) one_flying) \<and>
   calls (transfer_cb 0 0 (example_transfer BULK_IN LIBUSB_TRANSFER_NO_DEVICE) one_flying) = [] \<and>
   calls (transfer_cb 0 0 (example_transfer BULK_IN LIBUSB_TRANSFER_COMPLETED) one_flying) = [Submit 0] \<and>
   flying (transfer_cb 0 0 (example_transfer BULK_IN LIBUSB_TRANSFER_COMPLETED) one_flying) = {0} \<and>
   active_transfers (state
     (transfer_cb 0 0 (example_transfer BULK_IN LIBUSB_TRANSFER_COMPLETED) one_flying)) = 1 \<and>
   calls (transfer_cb (-1) 0 (example_transfer BULK_IN LIBUSB_TRANSFER_TIMED_OUT) one_flying) = [Submit 0] \<and>
   flying (transfer_cb (-1) 0 (example_transfer BULK_IN LIBUSB_TRANSFER_TIMED_OUT) one_flying) = {} \<and>
   active_transfers (state
     (transfer_cb (-1) 0 (example_transfer BULK_IN LIBUSB_TRANSFER_TIMED_OUT) one_flying)) = 0"
  using transfer_cb_resubmission [of 0 0 "example_transfer BULK_IN LIBUSB_TRANSFER_CANCELLED" one_flying]
        transfer_cb_resubmission [of 0 0 "example_transfer BULK_IN LIBUSB_TRANSFER_COMPLETED" "terminator one_flying"]
        transfer_cb_resubmission [of 0 0 "example_transfer BULK_IN LIBUSB_TRANSFER_NO_DEVICE" one_flying]
        transfer_cb_resubmission [of 0 0 "example_transfer BULK_IN LIBUSB_TRANSFER_COMPLETED" one_flying]
        transfer_cb_resubmission [of "-1" 0 "example_transfer BULK_IN LIBUSB_TRANSFER_TIMED_OUT" one_flying]
  by (simp add: Let_def example_transfer_def BULK_IN_def LIBUSB_ENDPOINT_IN_def
        LIBUSB_ENDPOINT_OUT_def LIBUSB_ENDPOINT_DIR_MASK_def LIBUSB_SUCCESS_def
        one_flying_def pipeline_zero_def state_zero_def host_errors_zero_def terminator_def stats_def
        transfer_cb_def transfer_cb_resubmit_def libusb_submit_transfer_def)

subsection \<open>The invariant of the pool\<close>

lemma pool_inv_bound: "pool_inv w \<Longrightarrow> unat (active_transfers (state w)) \<le> BUFFER_CNT"
proof -
  assume a: "pool_inv w"
  then have "card (flying w) \<le> card {..<BUFFER_CNT}"
    unfolding pool_inv_def by (intro card_mono) auto
  with a show ?thesis by (simp add: pool_inv_def)
qed

lemma flying_finite: "flying w \<subseteq> {..<BUFFER_CNT} \<Longrightarrow> finite (flying w)"
  by (rule finite_subset[of _ "{..<BUFFER_CNT}"]) auto

lemma card_flying_le: "flying w \<subseteq> {..<BUFFER_CNT} \<Longrightarrow> card (flying w) \<le> 64"
proof -
  assume a: "flying w \<subseteq> {..<BUFFER_CNT}"
  then have "card (flying w) \<le> card {..<BUFFER_CNT}" by (intro card_mono) auto
  then show ?thesis by (simp add: BUFFER_CNT_def)
qed

lemma unat_inc: "unat (a::u32) \<le> 64 \<Longrightarrow> unat (a + 1) = unat a + 1"
  by (simp add: unat_word_ariths)

lemma unat_dec: "unat (a::u32) = Suc n \<Longrightarrow> unat (a - 1) = n"
  by (metis Suc_eq_plus1 add_diff_cancel_right' diff_Suc_1 unat_minus_one unsigned_eq_0_iff nat.distinct(1) unsigned_0)

lemma resubmit_inv:
  assumes "unat (active_transfers (state w)) = card (flying w)" "flying w \<subseteq> {..<BUFFER_CNT}" "i < BUFFER_CNT"
  shows "pool_inv (transfer_cb_resubmit env i w)"
proof -
  have fin: "finite (flying w)" using assms(2) by (rule flying_finite)
  have le: "unat (active_transfers (state w)) \<le> 64" using assms(1) card_flying_le[OF assms(2)] by simp
  show ?thesis
    using assms fin unat_inc[OF le]
    by (auto simp add: pool_inv_def transfer_cb_resubmit_def libusb_submit_transfer_def Let_def LIBUSB_SUCCESS_def LIBUSB_ERROR_BUSY_def)
qed

lemma transfer_cb_inv:
  assumes "unat (active_transfers (state w)) = Suc (card (flying w))"
    and "flying w \<subseteq> {..<BUFFER_CNT}" and "i < BUFFER_CNT"
  shows "pool_inv (transfer_cb env i t w)"
proof -
  have d: "unat (active_transfers (state w) - 1) = card (flying w)"
    using assms(1) by (rule unat_dec)
  show ?thesis
    using d assms(2,3)
    by (cases "status t")
       (simp_all add: transfer_cb_def Let_def resubmit_inv, simp add: pool_inv_def)
qed

lemma deliver_inv:
  assumes "pool_inv w"
  shows "pool_inv (deliver c w)"
proof (cases "slot c \<in> flying w \<and> slot c < length (xfers w)")
  case False
  then show ?thesis using assms by (auto simp add: deliver_def)
next
  case True
  have fin: "finite (flying w)" using assms by (simp add: pool_inv_def flying_finite)
  have c: "card (flying w) = Suc (card (flying w - {slot c}))"
    using True fin card.remove[of "flying w" "slot c"] by simp
  have lt: "slot c < BUFFER_CNT" using True assms by (auto simp add: pool_inv_def)
  show ?thesis
  proof (cases "xfers w ! slot c")
    case (Ptr t)
    show ?thesis
      using True Ptr assms c lt
      by (simp add: deliver_def Let_def) (rule transfer_cb_inv, auto simp add: pool_inv_def)
  qed (use True assms in \<open>simp_all add: deliver_def\<close>)
qed

lemma occur_inv: "pool_inv w \<Longrightarrow> pool_inv (occur e w)"
  by (cases e) (simp_all add: deliver_inv, simp add: terminator_def pool_inv_def)

lemma fold_occur_inv: "pool_inv w \<Longrightarrow> pool_inv (fold occur b w)"
  by (induction b arbitrary: w) (simp_all add: occur_inv)

lemma handle_events_inv: "pool_inv w \<Longrightarrow> pool_inv (libusb_handle_events b w)"
  unfolding libusb_handle_events_def
  by (rule fold_occur_inv) (simp add: pool_inv_def)

lemma submit_count_inv:
  assumes "pool_inv w" "i < BUFFER_CNT" "libusb_submit_transfer env i w = (r, w')"
  shows "pool_inv (if r = LIBUSB_SUCCESS
           then w'\<lparr>state := (state w')\<lparr>active_transfers := active_transfers (state w') + 1\<rparr>\<rparr>
           else w')"
proof -
  have fin: "finite (flying w)" using assms(1) by (simp add: pool_inv_def flying_finite)
  have le: "unat (active_transfers (state w)) \<le> 64"
    using assms(1) card_flying_le[of w] by (simp add: pool_inv_def)
  show ?thesis
    using assms fin unat_inc[OF le]
    by (auto simp add: pool_inv_def libusb_submit_transfer_def Let_def LIBUSB_SUCCESS_def
          LIBUSB_ERROR_BUSY_def split: if_splits)
qed

lemma fill_slot_inv:
  assumes "pool_inv w" "i < BUFFER_CNT"
  shows "pool_inv (fst (fill_slot m sz e i w))"
proof (cases "alloc_ok e \<and> malloc_ok e")
  case False
  then show ?thesis using assms(1) by (auto simp add: fill_slot_def pool_inv_def)
next
  case True
  define w1 where "w1 = w\<lparr>heap := insert i (heap w), xfers := (xfers w)[i := Ptr
      (libusb_fill_bulk_transfer (pool_endpoint m i) (Some i) (of_nat sz))]\<rparr>"
  have inv1: "pool_inv w1" using assms(1) by (simp add: w1_def pool_inv_def)
  obtain r w2 where sub: "libusb_submit_transfer (submit_res e) i w1 = (r, w2)"
    by (cases "libusb_submit_transfer (submit_res e) i w1")
  show ?thesis
    using True sub submit_count_inv[OF inv1 assms(2) sub]
    by (simp add: fill_slot_def Let_def w1_def[symmetric])
qed

lemma fill_slots_inv:
  "pool_inv w \<Longrightarrow> \<forall>i \<in> set is. i < BUFFER_CNT \<Longrightarrow> pool_inv (fst (fill_slots m sz env is w))"
proof (induction "is" arbitrary: w)
  case Nil
  then show ?case by simp
next
  case (Cons i "is")
  obtain w' ok where f: "fill_slot m sz (env i) i w = (w', ok)"
    by (cases "fill_slot m sz (env i) i w")
  have inv': "pool_inv w'" using fill_slot_inv[of w i m sz "env i"] Cons.prems f by simp
  show ?case using Cons.IH[OF inv'] Cons.prems(2) f inv' by (cases ok) simp_all
qed

lemma fill_pool_inv: "pool_inv w \<Longrightarrow> pool_inv (fst (fill_pool m sz env w))"
  unfolding fill_pool_def by (rule fill_slots_inv) simp_all

lemma print_measurement_active:
  "print_measurement clk s = Inr (s', l) \<Longrightarrow> active_transfers s' = active_transfers s"
  by (auto simp add: print_measurement_def Let_def split: option.splits sum.splits prod.splits)

lemma main_loop_inv:
  "pool_inv w \<Longrightarrow> pool_inv (loop_world (main_loop lim ival es l w))"
proof (induction es arbitrary: l w)
  case Nil
  then show ?case by simp
next
  case (Cons e es)
  obtain tm last where l: "l = (tm, last)" by (cases l)
  have h: "pool_inv (libusb_handle_events (events e) w)"
    using Cons.prems by (rule handle_events_inv)
  have t: "\<And>v. pool_inv v \<Longrightarrow> pool_inv (v\<lparr>terminate := True\<rparr>)" by (simp add: pool_inv_def)
  have m: "\<And>v s' ln clk. pool_inv v \<Longrightarrow> print_measurement clk (state v) = Inr (s', ln) \<Longrightarrow>
             pool_inv (v\<lparr>state := s'\<rparr>)"
    using print_measurement_active by (simp add: pool_inv_def)
  show ?case
    using Cons.prems h t[OF h] Cons.IH m
    by (auto simp add: l Let_def split: option.splits sum.splits prod.splits)
qed

subsection \<open>What the drain changes\<close>

lemma frees_append: "frees (xs @ ys) = frees xs @ frees ys"
  by (induction xs rule: frees.induct) simp_all

lemma cancel_all_spec:
  "cancel_all is w = Done w' \<Longrightarrow>
     state w' = state w \<and> xfers w' = xfers w \<and> flying w' = flying w \<and> heap w' = heap w \<and>
     terminate w' = terminate w \<and> frees (calls w') = frees (calls w)"
proof (induction "is" arbitrary: w)
  case Nil
  then show ?case by simp
next
  case (Cons i "is")
  show ?case
  proof (cases "xfers w ! i")
    case Indeterminate
    then show ?thesis using Cons.prems by simp
  next
    case Null
    then show ?thesis using Cons.prems Cons.IH[of w] by simp
  next
    case (Ptr t)
    then have "cancel_all is (w\<lparr>calls := calls w @ [Cancel i]\<rparr>) = Done w'"
      using Cons.prems by simp
    from Cons.IH[OF this] show ?thesis by (simp add: frees_append)
  qed
qed

lemma resubmit_frame:
  "heap (transfer_cb_resubmit env i w) = heap w \<and>
   xfers (transfer_cb_resubmit env i w) = xfers w \<and>
   frees (calls (transfer_cb_resubmit env i w)) = frees (calls w)"
  by (simp add: transfer_cb_resubmit_def libusb_submit_transfer_def Let_def frees_append)

lemma transfer_cb_frame:
  "heap (transfer_cb env i t w) = heap w \<and>
   xfers (transfer_cb env i t w) = xfers w \<and>
   frees (calls (transfer_cb env i t w)) = frees (calls w)"
  by (cases "status t") (simp_all add: transfer_cb_def Let_def resubmit_frame)

lemma slot_buffer_update:
  "i < length (xfers w) \<Longrightarrow> xfers w ! i = Ptr t \<Longrightarrow> buffer t' = buffer t \<Longrightarrow>
   xfers w' = (xfers w)[i := Ptr t'] \<Longrightarrow> slot_buffer w' = slot_buffer w"
  by (rule ext) (auto simp add: slot_buffer_def nth_list_update)

lemma deliver_frame:
  "heap (deliver c w) = heap w \<and> slot_buffer (deliver c w) = slot_buffer w \<and>
   length (xfers (deliver c w)) = length (xfers w) \<and>
   frees (calls (deliver c w)) = frees (calls w)"
proof (cases "slot c \<in> flying w \<and> slot c < length (xfers w)")
  case False
  then show ?thesis by (auto simp add: deliver_def)
next
  case True
  show ?thesis
  proof (cases "xfers w ! slot c")
    case (Ptr t)
    let ?t' = "t\<lparr>status := cstatus c, actual_length := cactual_length c\<rparr>"
    let ?w1 = "w\<lparr>flying := flying w - {slot c}, xfers := (xfers w)[slot c := Ptr ?t']\<rparr>"
    have d: "deliver c w = transfer_cb (resubmit_res c) (slot c) ?t' ?w1"
      using True Ptr by (simp add: deliver_def Let_def)
    have sb: "slot_buffer (transfer_cb (resubmit_res c) (slot c) ?t' ?w1) = slot_buffer w"
      by (rule slot_buffer_update[where i="slot c" and t=t and t'="?t'"])
         (use True Ptr in \<open>simp_all add: transfer_cb_frame\<close>)
    show ?thesis using sb by (simp add: d transfer_cb_frame)
  qed (use True in \<open>simp_all add: deliver_def\<close>)
qed

lemma occur_frame:
  "heap (occur e w) = heap w \<and> slot_buffer (occur e w) = slot_buffer w \<and>
   length (xfers (occur e w)) = length (xfers w) \<and>
   frees (calls (occur e w)) = frees (calls w)"
  by (cases e) (simp_all add: deliver_frame, simp add: terminator_def slot_buffer_def fun_eq_iff)

lemma fold_occur_frame:
  "heap (fold occur b w) = heap w \<and> slot_buffer (fold occur b w) = slot_buffer w \<and>
   length (xfers (fold occur b w)) = length (xfers w) \<and>
   frees (calls (fold occur b w)) = frees (calls w)"
  by (induction b arbitrary: w) (simp_all add: occur_frame)

lemma slot_buffer_calls: "slot_buffer (w\<lparr>calls := cs\<rparr>) = slot_buffer w"
  by (rule ext) (simp add: slot_buffer_def)

lemma handle_events_frame:
  "heap (libusb_handle_events b w) = heap w \<and>
   slot_buffer (libusb_handle_events b w) = slot_buffer w \<and>
   length (xfers (libusb_handle_events b w)) = length (xfers w) \<and>
   frees (calls (libusb_handle_events b w)) = frees (calls w)"
  by (simp add: libusb_handle_events_def fold_occur_frame frees_append slot_buffer_calls)

lemma drain_wait_spec:
  "drain_wait bs w = Done w' \<Longrightarrow>
     active_transfers (state w') = 0 \<and> heap w' = heap w \<and> slot_buffer w' = slot_buffer w \<and>
     frees (calls w') = frees (calls w)"
proof (induction bs arbitrary: w)
  case Nil
  then show ?case by (simp split: if_splits)
next
  case (Cons b bs)
  show ?case
  proof (cases "active_transfers (state w) = 0")
    case True
    then show ?thesis using Cons.prems by simp
  next
    case False
    then have "drain_wait bs (libusb_handle_events b w) = Done w'" using Cons.prems by simp
    from Cons.IH[OF this] show ?thesis by (simp add: handle_events_frame)
  qed
qed

lemma slot_buffer_heap_calls: "slot_buffer (w\<lparr>heap := h, calls := cs\<rparr>) = slot_buffer w"
  by (rule ext) (simp add: slot_buffer_def)

lemma free_all_spec:
  "free_all is w = Done w' \<Longrightarrow>
     state w' = state w \<and> flying w' = flying w \<and>
     frees (calls w') =
       frees (calls w) @ map (\<lambda>a. (a, active_transfers (state w))) (concat (map (slot_buffer w) is)) \<and>
     distinct (concat (map (slot_buffer w) is)) \<and>
     set (concat (map (slot_buffer w) is)) \<subseteq> heap w \<and>
     heap w' = heap w - set (concat (map (slot_buffer w) is))"
proof (induction "is" arbitrary: w)
  case Nil
  then show ?case by simp
next
  case (Cons i "is")
  show ?case
  proof (cases "xfers w ! i")
    case Indeterminate
    then show ?thesis using Cons.prems by simp
  next
    case Null
    then show ?thesis using Cons.prems by simp
  next
    case (Ptr t)
    show ?thesis
    proof (cases "buffer t")
      case None
      then have sb: "slot_buffer w i = []" using Ptr by (simp add: slot_buffer_def)
      have "free_all is w = Done w'" using Cons.prems Ptr None by simp
      from Cons.IH[OF this] show ?thesis by (simp add: sb)
    next
      case (Some a)
      then have sb: "slot_buffer w i = [a]" using Ptr by (simp add: slot_buffer_def)
      have live: "a \<in> heap w" using Cons.prems Ptr Some by (simp split: if_splits)
      let ?w1 = "w\<lparr>heap := heap w - {a},
                   calls := calls w @ [Free a (active_transfers (state w)), Free_transfer i]\<rparr>"
      have "free_all is ?w1 = Done w'" using Cons.prems Ptr Some live by simp
      from Cons.IH[OF this] show ?thesis
        using live by (auto simp add: sb slot_buffer_heap_calls frees_append)
    qed
  qed
qed

lemma cancel_all_inv: "pool_inv w \<Longrightarrow> pool_inv (world_of (cancel_all is w))"
proof (induction "is" arbitrary: w)
  case Nil
  then show ?case by simp
next
  case (Cons i "is")
  have "pool_inv (w\<lparr>calls := calls w @ [Cancel i]\<rparr>)" using Cons.prems by (simp add: pool_inv_def)
  then show ?case using Cons by (cases "xfers w ! i") simp_all
qed

lemma drain_wait_inv: "pool_inv w \<Longrightarrow> pool_inv (world_of (drain_wait bs w))"
  by (induction bs arbitrary: w) (simp_all add: handle_events_inv)

lemma free_all_inv: "pool_inv w \<Longrightarrow> pool_inv (world_of (free_all is w))"
proof (induction "is" arbitrary: w)
  case Nil
  then show ?case by simp
next
  case (Cons i "is")
  have "\<And>h cs. pool_inv (w\<lparr>heap := h, calls := cs\<rparr>)" using Cons.prems by (simp add: pool_inv_def)
  then show ?case using Cons by (auto split: xfer_ptr.splits option.splits)
qed

lemma drain_inv: "pool_inv w \<Longrightarrow> pool_inv (world_of (drain bs w))"
proof -
  assume inv: "pool_inv w"
  show ?thesis
  proof (cases "cancel_all [0..<BUFFER_CNT] w")
    case (Done w1)
    have i1: "pool_inv w1" using cancel_all_inv[OF inv, of "[0..<BUFFER_CNT]"] Done by simp
    show ?thesis
    proof (cases "drain_wait bs w1")
      case d: (Done w2)
      have "pool_inv w2" using drain_wait_inv[OF i1, of bs] d by simp
      then show ?thesis using Done d free_all_inv by (simp add: drain_def)
    qed (use Done drain_wait_inv[OF i1, of bs] in \<open>simp_all add: drain_def\<close>)
  qed (use cancel_all_inv[OF inv, of "[0..<BUFFER_CNT]"] in \<open>simp_all add: drain_def\<close>)
qed

lemma pipeline_start_inv:
  "pool_inv (pipeline_zero\<lparr>state := state_zero\<lparr>start_time := t, measurement_time := t\<rparr>\<rparr>)"
  by (simp add: pool_inv_def pipeline_zero_def state_zero_def)

lemma main_pipeline_inv: "pool_inv (world_of (main_pipeline t m sz env lim ival es bs))"
proof -
  let ?w0 = "pipeline_zero\<lparr>state := state_zero\<lparr>start_time := t, measurement_time := t\<rparr>\<rparr>"
  obtain w1 ok where f: "fill_pool m sz env ?w0 = (w1, ok)" by (cases "fill_pool m sz env ?w0")
  have i1: "pool_inv w1" using fill_pool_inv[OF pipeline_start_inv, of m sz env t] f by simp
  show ?thesis
  proof (cases ok)
    case False
    then show ?thesis using f drain_inv[OF i1] by (simp add: main_pipeline_def)
  next
    case True
    show ?thesis
    proof (cases "main_loop lim ival es (False, 0) w1")
      case (Done r)
      obtain w2 k where r: "r = (w2, k)" by (cases r)
      have "pool_inv w2" using main_loop_inv[OF i1, of lim ival es "(False, 0)"] Done r by simp
      then show ?thesis using f True Done r drain_inv by (simp add: main_pipeline_def)
    qed (use main_loop_inv[OF i1, of lim ival es "(False, 0)"] f True in
          \<open>simp_all add: main_pipeline_def\<close>)
  qed
qed

subsection \<open>A pool that was allocated completely\<close>

lemma fill_slot_ok:
  assumes "alloc_ok e" "malloc_ok e" "i \<notin> flying w"
  shows "\<exists>w'. fill_slot m sz e i w = (w', True) \<and>
           xfers w' = (xfers w)[i := Ptr (libusb_fill_bulk_transfer (pool_endpoint m i) (Some i) (of_nat sz))] \<and>
           heap w' = insert i (heap w) \<and>
           flying w' = (if submit_res e = LIBUSB_SUCCESS then insert i (flying w) else flying w) \<and>
           terminate w' = terminate w \<and> frees (calls w') = frees (calls w) \<and>
           stats (state w') = stats (state w)"
  using assms
  by (simp add: fill_slot_def Let_def libusb_submit_transfer_def frees_append stats_def)

lemma fill_slots_ok:
  assumes "distinct is" "\<forall>i \<in> set is. i < length (xfers w) \<and> i \<notin> flying w \<and> alloc_ok (env i) \<and> malloc_ok (env i)"
  shows "\<exists>w'. fill_slots m sz env is w = (w', True) \<and>
           length (xfers w') = length (xfers w) \<and>
           (\<forall>i \<in> set is. \<exists>t. xfers w' ! i = Ptr t \<and> buffer t = Some i) \<and>
           (\<forall>i. i \<notin> set is \<longrightarrow> xfers w' ! i = xfers w ! i) \<and>
           heap w' = heap w \<union> set is \<and>
           flying w' = flying w \<union> {i \<in> set is. submit_res (env i) = LIBUSB_SUCCESS} \<and>
           terminate w' = terminate w \<and> frees (calls w') = frees (calls w) \<and>
           stats (state w') = stats (state w)"
  using assms
proof (induction "is" arbitrary: w)
  case Nil
  then show ?case by simp
next
  case (Cons i "is")
  define t where "t = libusb_fill_bulk_transfer (pool_endpoint m i) (Some i) (of_nat sz)"
  have b1: "buffer t = Some i" by (simp add: t_def libusb_fill_bulk_transfer_def)
  obtain w1 where f: "fill_slot m sz (env i) i w = (w1, True)"
    and x1: "xfers w1 = (xfers w)[i := Ptr t]"
    and h1: "heap w1 = insert i (heap w)"
    and f1: "flying w1 = (if submit_res (env i) = LIBUSB_SUCCESS then insert i (flying w) else flying w)"
    and r1: "terminate w1 = terminate w" "frees (calls w1) = frees (calls w)" "stats (state w1) = stats (state w)"
    using fill_slot_ok[of "env i" i w m sz] Cons.prems unfolding t_def by auto
  have d: "distinct is" and ni: "i \<notin> set is" using Cons.prems(1) by simp_all
  have p: "\<forall>j \<in> set is. j < length (xfers w1) \<and> j \<notin> flying w1 \<and> alloc_ok (env j) \<and> malloc_ok (env j)"
    using Cons.prems(2) ni by (auto simp add: x1 f1)
  obtain w' where r: "fill_slots m sz env is w1 = (w', True)"
    and l: "length (xfers w') = length (xfers w1)"
    and a: "\<forall>j \<in> set is. \<exists>t. xfers w' ! j = Ptr t \<and> buffer t = Some j"
    and o: "\<forall>j. j \<notin> set is \<longrightarrow> xfers w' ! j = xfers w1 ! j"
    and h: "heap w' = heap w1 \<union> set is"
    and fl: "flying w' = flying w1 \<union> {j \<in> set is. submit_res (env j) = LIBUSB_SUCCESS}"
    and rest: "terminate w' = terminate w1" "frees (calls w') = frees (calls w1)" "stats (state w') = stats (state w1)"
    using Cons.IH[OF d p] by auto
  have ilt: "i < length (xfers w)" using Cons.prems(2) by simp
  have xi: "xfers w' ! i = Ptr t" using o ni x1 ilt by simp
  show ?case
    apply (rule exI[of _ w'])
    using f r l a o h fl rest r1 xi b1 ni
    by (auto simp add: x1 h1 f1)
qed

lemma fill_pool_ok:
  assumes "length (xfers w) = BUFFER_CNT" "flying w = {}"
    and "\<forall>i<BUFFER_CNT. alloc_ok (env i) \<and> malloc_ok (env i)"
  shows "\<exists>w'. fill_pool m sz env w = (w', True) \<and> wf_pool w' \<and>
           heap w' = heap w \<union> {..<BUFFER_CNT} \<and>
           flying w' = {i. i < BUFFER_CNT \<and> submit_res (env i) = LIBUSB_SUCCESS} \<and>
           terminate w' = terminate w \<and> frees (calls w') = frees (calls w) \<and>
           stats (state w') = stats (state w)"
proof -
  have p: "\<forall>i \<in> set [0..<BUFFER_CNT]. i < length (xfers w) \<and> i \<notin> flying w \<and>
             alloc_ok (env i) \<and> malloc_ok (env i)"
    using assms by simp
  obtain w' where r: "fill_slots m sz env [0..<BUFFER_CNT] w = (w', True)"
    and l: "length (xfers w') = length (xfers w)"
    and a: "\<forall>j \<in> set [0..<BUFFER_CNT]. \<exists>t. xfers w' ! j = Ptr t \<and> buffer t = Some j"
    and h: "heap w' = heap w \<union> set [0..<BUFFER_CNT]"
    and fl: "flying w' = flying w \<union> {j \<in> set [0..<BUFFER_CNT]. submit_res (env j) = LIBUSB_SUCCESS}"
    and rest: "terminate w' = terminate w" "frees (calls w') = frees (calls w)"
              "stats (state w') = stats (state w)"
    using fill_slots_ok[OF distinct_upt p, of m sz] by auto
  have "wf_pool w'" using l a h assms(1) by (auto simp add: wf_pool_def)
  moreover have "heap w' = heap w \<union> {..<BUFFER_CNT}" using h by (simp add: atLeast_upt)
  moreover have "flying w' = {i. i < BUFFER_CNT \<and> submit_res (env i) = LIBUSB_SUCCESS}"
    using fl assms(2) by auto
  ultimately show ?thesis using r rest by (simp add: fill_pool_def)
qed

lemma pool_after_facts:
  assumes "\<forall>i<BUFFER_CNT. alloc_ok (env i) \<and> malloc_ok (env i)"
  shows "wf_pool (pool_after env)" and "pool_inv (pool_after env)"
    and "heap (pool_after env) = {..<BUFFER_CNT}"
    and "flying (pool_after env) = {i. i < BUFFER_CNT \<and> submit_res (env i) = LIBUSB_SUCCESS}"
    and "frees (calls (pool_after env)) = []" and "\<not> terminate (pool_after env)"
proof -
  have l0: "length (xfers pipeline_zero) = BUFFER_CNT" "flying pipeline_zero = {}"
    by (simp_all add: pipeline_zero_def)
  have i0: "pool_inv pipeline_zero" by (simp add: pool_inv_def pipeline_zero_def state_zero_def)
  obtain w' where r: "fill_pool U3LOOP_MODE_READ_WRITE 1024 env pipeline_zero = (w', True)"
    and wf: "wf_pool w'"
    and h: "heap w' = heap pipeline_zero \<union> {..<BUFFER_CNT}"
    and fl: "flying w' = {i. i < BUFFER_CNT \<and> submit_res (env i) = LIBUSB_SUCCESS}"
    and tm: "terminate w' = terminate pipeline_zero"
    and fr: "frees (calls w') = frees (calls pipeline_zero)"
    using fill_pool_ok[OF l0 assms, of U3LOOP_MODE_READ_WRITE 1024] by blast
  have pa: "pool_after env = w'" by (simp add: pool_after_def r)
  show "wf_pool (pool_after env)" using wf pa by simp
  show "pool_inv (pool_after env)"
    unfolding pool_after_def by (rule fill_pool_inv[OF i0])
  show "heap (pool_after env) = {..<BUFFER_CNT}" using h pa by (simp add: pipeline_zero_def)
  show "flying (pool_after env) = {i. i < BUFFER_CNT \<and> submit_res (env i) = LIBUSB_SUCCESS}"
    using fl pa by simp
  show "frees (calls (pool_after env)) = []" using fr pa by (simp add: pipeline_zero_def)
  show "\<not> terminate (pool_after env)" using tm pa by (simp add: pipeline_zero_def)
qed

lemma cancel_all_done:
  "\<forall>i \<in> set is. \<exists>t. xfers w ! i = Ptr t \<Longrightarrow> \<exists>w'. cancel_all is w = Done w'"
  by (induction "is" arbitrary: w) auto

lemma free_all_done:
  "distinct is \<Longrightarrow> \<forall>i \<in> set is. (\<exists>t. xfers w ! i = Ptr t \<and> buffer t = Some i) \<and> i \<in> heap w \<Longrightarrow>
   \<exists>w'. free_all is w = Done w'"
proof (induction "is" arbitrary: w)
  case Nil
  then show ?case by simp
next
  case (Cons i "is")
  obtain t where t: "xfers w ! i = Ptr t" "buffer t = Some i" "i \<in> heap w"
    using Cons.prems(2) by auto
  let ?w1 = "w\<lparr>heap := heap w - {i},
               calls := calls w @ [Free i (active_transfers (state w)), Free_transfer i]\<rparr>"
  have "\<forall>j \<in> set is. (\<exists>t. xfers ?w1 ! j = Ptr t \<and> buffer t = Some j) \<and> j \<in> heap ?w1"
    using Cons.prems by auto
  from Cons.IH[OF _ this] Cons.prems(1) obtain w' where "free_all is ?w1 = Done w'" by auto
  then show ?case using t by simp
qed

lemma wf_slot_buffer: "wf_pool w \<Longrightarrow> i < BUFFER_CNT \<Longrightarrow> slot_buffer w i = [i]"
  by (auto simp add: wf_pool_def slot_buffer_def)

lemma concat_singletons: "concat (map (\<lambda>i. [i]) xs) = xs"
  by (induction xs) simp_all

lemma wf_pool_buffers: "wf_pool w \<Longrightarrow> pool_buffers w = [0..<BUFFER_CNT]"
proof -
  assume wf: "wf_pool w"
  have m: "map (slot_buffer w) [0..<BUFFER_CNT] = map (\<lambda>i. [i]) [0..<BUFFER_CNT]"
    by (rule map_cong) (simp_all add: wf_slot_buffer[OF wf])
  show ?thesis unfolding pool_buffers_def m by (rule concat_singletons)
qed

lemma deliver_cancelled:
  assumes "i \<in> flying w" "i < length (xfers w)" "xfers w ! i = Ptr t"
  shows "flying (occur (cancelled i) w) = flying w - {i} \<and>
         terminate (occur (cancelled i) w) = terminate w \<and>
         stats (state (occur (cancelled i) w)) = stats (state w)"
  using assms by (simp add: cancelled_def deliver_def transfer_cb_def Let_def stats_def)

lemma wf_pool_occur: "wf_pool w \<Longrightarrow> wf_pool (occur e w)"
proof -
  assume wf: "wf_pool w"
  have sb: "slot_buffer (occur e w) = slot_buffer w" and len: "length (xfers (occur e w)) = length (xfers w)"
    and hp: "heap (occur e w) = heap w"
    using occur_frame[of e w] by simp_all
  have "\<And>i. i < BUFFER_CNT \<Longrightarrow> \<exists>t. xfers (occur e w) ! i = Ptr t \<and> buffer t = Some i"
  proof -
    fix i assume i: "i < BUFFER_CNT"
    have "slot_buffer (occur e w) i = [i]" using sb wf_slot_buffer[OF wf i] by simp
    then show "\<exists>t. xfers (occur e w) ! i = Ptr t \<and> buffer t = Some i"
      by (auto simp add: slot_buffer_def split: xfer_ptr.splits option.splits)
  qed
  then show ?thesis using wf len hp by (simp add: wf_pool_def)
qed

lemma fold_cancelled:
  assumes "wf_pool w" "set is \<subseteq> flying w" "flying w \<subseteq> {..<BUFFER_CNT}" "distinct is"
  shows "flying (fold occur (map cancelled is) w) = flying w - set is \<and>
         terminate (fold occur (map cancelled is) w) = terminate w"
  using assms
proof (induction "is" arbitrary: w)
  case Nil
  then show ?case by simp
next
  case (Cons i "is")
  have i: "i \<in> flying w" "i < BUFFER_CNT" using Cons.prems by auto
  obtain t where t: "xfers w ! i = Ptr t" using Cons.prems(1) i by (auto simp add: wf_pool_def)
  have len: "i < length (xfers w)" using Cons.prems(1) i by (simp add: wf_pool_def)
  note dc = deliver_cancelled[OF i(1) len t]
  have wf': "wf_pool (occur (cancelled i) w)" using Cons.prems(1) by (rule wf_pool_occur)
  have ni: "i \<notin> set is" and d: "distinct is" using Cons.prems(4) by simp_all
  have "set is \<subseteq> flying (occur (cancelled i) w)" using Cons.prems(2) ni dc by auto
  moreover have "flying (occur (cancelled i) w) \<subseteq> {..<BUFFER_CNT}" using Cons.prems(3) dc by auto
  ultimately show ?case using Cons.IH[OF wf' _ _ d] dc by auto
qed

lemma wf_pool_frame:
  "xfers w' = xfers w \<Longrightarrow> heap w' = heap w \<Longrightarrow> wf_pool w \<Longrightarrow> wf_pool w'"
  by (simp add: wf_pool_def)

lemma wf_pool_fold: "wf_pool w \<Longrightarrow> wf_pool (fold occur b w)"
  by (induction b arbitrary: w) (simp_all add: wf_pool_occur)

text \<open>
  The drain returns when the pool was allocated completely and libusb reports the
  cancellation of every transfer that was in flight.
\<close>

theorem drain_returns:
  assumes wf: "wf_pool w" and inv: "pool_inv w" and fl: "set is = flying w" and d: "distinct is"
  shows "\<exists>w'. drain [map cancelled is] w = Done w'"
proof -
  have ptr: "\<forall>i \<in> set [0..<BUFFER_CNT]. \<exists>t. xfers w ! i = Ptr t"
    using wf by (auto simp add: wf_pool_def)
  obtain w1 where c: "cancel_all [0..<BUFFER_CNT] w = Done w1"
    using cancel_all_done[OF ptr] by auto
  note cs = cancel_all_spec[OF c]
  have wf1: "wf_pool w1" using wf cs by (simp add: wf_pool_frame)
  have inv1: "pool_inv w1" using inv cs by (simp add: pool_inv_def)
  let ?w2 = "libusb_handle_events (map cancelled is) w1"
  have wf1': "wf_pool (w1\<lparr>calls := calls w1 @ [Handle_events]\<rparr>)"
    using wf1 by (simp add: wf_pool_def)
  have fl2: "flying ?w2 = {}"
    using fold_cancelled[OF wf1', of "is"] fl d cs inv by (simp add: libusb_handle_events_def pool_inv_def)
  have inv2: "pool_inv ?w2" using inv1 by (rule handle_events_inv)
  have a2: "active_transfers (state ?w2) = 0"
    using inv2 fl2 by (simp add: pool_inv_def unat_eq_0)
  have wf2: "wf_pool ?w2"
    unfolding libusb_handle_events_def using wf1' by (rule wf_pool_fold)
  obtain w2 where dw: "drain_wait [map cancelled is] w1 = Done w2" and w2: "w2 = w1 \<or> w2 = ?w2"
    using a2 by (cases "active_transfers (state w1) = 0") simp_all
  have wfw2: "wf_pool w2" using w2 wf1 wf2 by auto
  have fr: "\<forall>i \<in> set [0..<BUFFER_CNT]. (\<exists>t. xfers w2 ! i = Ptr t \<and> buffer t = Some i) \<and> i \<in> heap w2"
    using wfw2 by (auto simp add: wf_pool_def)
  obtain w' where "free_all [0..<BUFFER_CNT] w2 = Done w'"
    using free_all_done[OF distinct_upt fr] by auto
  then show ?thesis using c dw by (simp add: drain_def)
qed

lemma deliver_active:
  assumes "pool_inv w"
  shows "active_transfers (state (deliver c w)) =
     (if slot c \<in> flying w \<and> slot c < length (xfers w) \<and> (\<exists>t. xfers w ! slot c = Ptr t)
      then active_transfers (state w) - 1 + (if slot c \<in> flying (deliver c w) then 1 else 0)
      else active_transfers (state w))"
proof (cases "slot c \<in> flying w \<and> slot c < length (xfers w)")
  case False
  then show ?thesis by (auto simp add: deliver_def)
next
  case True
  show ?thesis
  proof (cases "xfers w ! slot c")
    case (Ptr t)
    show ?thesis
      using True Ptr
      by (cases "cstatus c")
         (auto simp add: deliver_def Let_def transfer_cb_def transfer_cb_resubmit_def
            libusb_submit_transfer_def LIBUSB_SUCCESS_def)
  qed (use True in \<open>simp_all add: deliver_def\<close>)
qed

lemma stats_fields:
  "stats s' = stats s \<Longrightarrow> start_time s' = start_time s"
  by (metis stats_def state_t.select_convs(1) state_t.surjective state_t.update_convs(2))

subsection \<open>A pool that was not allocated completely\<close>

lemma fill_slot_fails:
  "fill_slot m sz e i w = (w', False) \<Longrightarrow> i < length (xfers w) \<Longrightarrow> xfers w' ! i = Null"
  by (auto simp add: fill_slot_def Let_def split: if_splits prod.splits)

lemma fill_slots_fails:
  "fill_slots m sz env is w = (w', False) \<Longrightarrow> \<forall>i \<in> set is. i < length (xfers w) \<Longrightarrow>
   \<exists>k \<in> set is. xfers w' ! k = Null"
proof (induction "is" arbitrary: w)
  case Nil
  then show ?case by simp
next
  case (Cons i "is")
  obtain w1 ok where f: "fill_slot m sz (env i) i w = (w1, ok)"
    by (cases "fill_slot m sz (env i) i w")
  show ?case
  proof (cases ok)
    case False
    then have "w' = w1" using Cons.prems(1) f by simp
    then show ?thesis using fill_slot_fails[of m sz "env i" i w w1] f False Cons.prems(2) by simp
  next
    case True
    have len: "length (xfers w1) = length (xfers w)"
      using f by (auto simp add: fill_slot_def Let_def libusb_submit_transfer_def split: if_splits)
    have "fill_slots m sz env is w1 = (w', False)" using Cons.prems(1) f True by simp
    from Cons.IH[OF this] Cons.prems(2) len show ?thesis by auto
  qed
qed

lemma free_all_null:
  "k \<in> set is \<Longrightarrow> xfers w ! k = Null \<Longrightarrow> free_all is w \<noteq> Done w'"
proof (induction "is" arbitrary: w)
  case Nil
  then show ?case by simp
next
  case (Cons i "is")
  show ?case
  proof (cases "i = k")
    case True
    then show ?thesis using Cons.prems by simp
  next
    case False
    then have k: "k \<in> set is" using Cons.prems(1) by simp
    show ?thesis
    proof (cases "xfers w ! i")
      case (Ptr t)
      show ?thesis
      proof (cases "buffer t")
        case None
        then show ?thesis using Ptr Cons.IH[OF k Cons.prems(2)] by simp
      next
        case (Some a)
        have "xfers (w\<lparr>heap := heap w - {a},
            calls := calls w @ [Free a (active_transfers (state w)), Free_transfer i]\<rparr>) ! k = Null"
          using Cons.prems(2) by simp
        from Cons.IH[OF k this] show ?thesis using Ptr Some by simp
      qed
    qed simp_all
  qed
qed

lemma resubmit_xfers: "xfers (transfer_cb_resubmit env i w) = xfers w"
  by (simp add: transfer_cb_resubmit_def libusb_submit_transfer_def Let_def)

lemma transfer_cb_xfers: "xfers (transfer_cb env i t w) = xfers w"
  by (cases "status t") (simp_all add: transfer_cb_def Let_def resubmit_xfers)

lemma occur_null:
  assumes n: "xfers w ! k = Null"
  shows "xfers (occur e w) ! k = Null"
proof (cases e)
  case Signal
  then show ?thesis using n by (simp add: terminator_def)
next
  case (Completes c)
  show ?thesis
  proof (cases "slot c \<in> flying w \<and> slot c < length (xfers w)")
    case False
    then show ?thesis using Completes n by (auto simp add: deliver_def)
  next
    case True
    show ?thesis
    proof (cases "xfers w ! slot c")
      case (Ptr t)
      then have "slot c \<noteq> k" using n by auto
      then show ?thesis using Completes True Ptr n
        by (simp add: deliver_def Let_def transfer_cb_xfers)
    qed (use Completes True n in \<open>simp_all add: deliver_def\<close>)
  qed
qed

lemma handle_events_null: "xfers w ! k = Null \<Longrightarrow> xfers (libusb_handle_events b w) ! k = Null"
proof -
  have "xfers w ! k = Null \<Longrightarrow> xfers (fold occur b w) ! k = Null" for w
    by (induction b arbitrary: w) (simp_all add: occur_null)
  then show "xfers w ! k = Null \<Longrightarrow> xfers (libusb_handle_events b w) ! k = Null"
    by (simp add: libusb_handle_events_def)
qed

lemma drain_wait_null:
  "drain_wait bs w = Done w' \<Longrightarrow> xfers w ! k = Null \<Longrightarrow> xfers w' ! k = Null"
proof (induction bs arbitrary: w)
  case Nil
  then show ?case by (simp split: if_splits)
next
  case (Cons b bs)
  show ?case
  proof (cases "active_transfers (state w) = 0")
    case True
    then show ?thesis using Cons.prems by simp
  next
    case False
    then have "drain_wait bs (libusb_handle_events b w) = Done w'" using Cons.prems(1) by simp
    from Cons.IH[OF this handle_events_null[OF Cons.prems(2)]] show ?thesis .
  qed
qed

lemma drain_with_null:
  assumes "k < BUFFER_CNT" "xfers w ! k = Null"
  shows "drain bs w \<noteq> Done w'"
proof
  assume d: "drain bs w = Done w'"
  obtain w1 where c: "cancel_all [0..<BUFFER_CNT] w = Done w1"
    using d by (auto simp add: drain_def split: stage.splits)
  obtain w2 where dw: "drain_wait bs w1 = Done w2"
    using d c by (auto simp add: drain_def split: stage.splits)
  have f: "free_all [0..<BUFFER_CNT] w2 = Done w'" using d c dw by (simp add: drain_def)
  have "xfers w1 ! k = Null" using cancel_all_spec[OF c] assms(2) by simp
  then have "xfers w2 ! k = Null" using drain_wait_null[OF dw] by simp
  moreover have "k \<in> set [0..<BUFFER_CNT]" using assms(1) by simp
  ultimately show False using free_all_null f by blast
qed

text \<open>
  When an allocation failed while the pool was filled, \<^verbatim>\<open>main\<close> jumps to the drain with a
  \<^verbatim>\<open>NULL\<close> entry in \<^verbatim>\<open>xfers\<close>. The drain does not return then: its last loop reads
  \<^verbatim>\<open>xfers[i]->buffer\<close> of that entry (or one of the loops reads an entry that was never
  assigned).
\<close>

lemma drain_after_failed_allocation:
  assumes "fill_pool m sz env w0 = (w, False)" "length (xfers w0) = BUFFER_CNT"
  shows "drain bs w \<noteq> Done w'"
proof -
  have "\<exists>k \<in> set [0..<BUFFER_CNT]. xfers w ! k = Null"
    using fill_slots_fails[of m sz env "[0..<BUFFER_CNT]" w0 w] assms by (simp add: fill_pool_def)
  then obtain k where "k < BUFFER_CNT" "xfers w ! k = Null" by auto
  then show ?thesis by (rule drain_with_null)
qed

lemma upt_pool: "[0..<BUFFER_CNT] = [0..<63] @ [63]"
proof -
  have b: "BUFFER_CNT = Suc 63" by (simp add: BUFFER_CNT_def)
  show ?thesis unfolding b by (rule upt_Suc_append) simp
qed

lemma fill_slots_append:
  "fill_slots m sz env (is @ js) w =
     (case fill_slots m sz env is w of
        (w', True) \<Rightarrow> fill_slots m sz env js w'
      | (w', False) \<Rightarrow> (w', False))"
  by (induction "is" arbitrary: w) (auto split: prod.splits bool.splits)

lemma free_all_append:
  "free_all (is @ js) w =
     (case free_all is w of Done w' \<Rightarrow> free_all js w' | Stuck w' \<Rightarrow> Stuck w' | Crash f w' \<Rightarrow> Crash f w')"
  by (induction "is" arbitrary: w) (auto split: xfer_ptr.splits option.splits)

lemma free_all_xfers: "free_all is w = Done w' \<Longrightarrow> xfers w' = xfers w"
proof (induction "is" arbitrary: w)
  case Nil
  then show ?case by simp
next
  case (Cons i "is")
  show ?case
  proof (cases "xfers w ! i")
    case (Ptr t)
    show ?thesis
    proof (cases "buffer t")
      case None
      then show ?thesis using Ptr Cons by simp
    next
      case (Some a)
      then have "free_all is (w\<lparr>heap := heap w - {a},
            calls := calls w @ [Free a (active_transfers (state w)), Free_transfer i]\<rparr>) = Done w'"
        using Ptr Cons.prems by (simp split: if_splits)
      from Cons.IH[OF this] show ?thesis by simp
    qed
  qed (use Cons.prems in simp_all)
qed

lemma cancel_all_defined:
  "\<forall>i \<in> set is. xfers w ! i \<noteq> Indeterminate \<Longrightarrow> \<exists>w'. cancel_all is w = Done w'"
proof (induction "is" arbitrary: w)
  case Nil
  then show ?case by simp
next
  case (Cons i "is")
  then show ?case by (cases "xfers w ! i") auto
qed

lemma fold_cancelled_slots:
  assumes "\<forall>i \<in> set is. i < length (xfers w) \<and> slot_buffer w i \<noteq> []" "set is \<subseteq> flying w" "distinct is"
  shows "flying (fold occur (map cancelled is) w) = flying w - set is"
  using assms
proof (induction "is" arbitrary: w)
  case Nil
  then show ?case by simp
next
  case (Cons i "is")
  have i: "i \<in> flying w" and len: "i < length (xfers w)" and sb: "slot_buffer w i \<noteq> []"
    using Cons.prems by auto
  obtain t where t: "xfers w ! i = Ptr t"
    using sb by (auto simp add: slot_buffer_def split: xfer_ptr.splits)
  note dc = deliver_cancelled[OF i len t]
  note fr = occur_frame[of "cancelled i" w]
  have ni: "i \<notin> set is" and d: "distinct is" using Cons.prems(3) by simp_all
  have 1: "\<forall>j \<in> set is. j < length (xfers (occur (cancelled i) w)) \<and> slot_buffer (occur (cancelled i) w) j \<noteq> []"
    using Cons.prems(1) fr by simp
  have 2: "set is \<subseteq> flying (occur (cancelled i) w)" using Cons.prems(2) ni dc by auto
  show ?case using Cons.IH[OF 1 2 d] dc by auto
qed

lemma pool_last_fails_facts:
  shows "fill_pool U3LOOP_MODE_READ_WRITE 1024 env_last_fails pipeline_zero = (pool_last_fails, False)"
    and "length (xfers pool_last_fails) = BUFFER_CNT"
    and "\<forall>i<63. \<exists>t. xfers pool_last_fails ! i = Ptr t \<and> buffer t = Some i"
    and "xfers pool_last_fails ! 63 = Null"
    and "heap pool_last_fails = {..<63}"
    and "flying pool_last_fails = {..<63}"
    and "frees (calls pool_last_fails) = []"
    and "pool_inv pool_last_fails"
proof -
  let ?m = U3LOOP_MODE_READ_WRITE
  note up = upt_pool
  have p: "\<forall>i \<in> set [0..<63]. i < length (xfers pipeline_zero) \<and> i \<notin> flying pipeline_zero \<and>
             alloc_ok (env_last_fails i) \<and> malloc_ok (env_last_fails i)"
    by (simp add: pipeline_zero_def BUFFER_CNT_def env_last_fails_def)
  obtain w1 where r: "fill_slots ?m 1024 env_last_fails [0..<63] pipeline_zero = (w1, True)"
    and l: "length (xfers w1) = length (xfers pipeline_zero)"
    and a: "\<forall>j \<in> set [0..<63]. \<exists>t. xfers w1 ! j = Ptr t \<and> buffer t = Some j"
    and h: "heap w1 = heap pipeline_zero \<union> set [0..<63]"
    and fl: "flying w1 = flying pipeline_zero \<union> {j \<in> set [0..<63]. submit_res (env_last_fails j) = LIBUSB_SUCCESS}"
    and fr: "frees (calls w1) = frees (calls pipeline_zero)"
    using fill_slots_ok[OF distinct_upt p, of ?m 1024] by auto
  let ?w = "w1\<lparr>xfers := (xfers w1)[63 := Null]\<rparr>"
  have s: "fill_slot ?m 1024 (env_last_fails 63) 63 w1 = (?w, False)"
    by (simp add: fill_slot_def env_last_fails_def)
  have f: "fill_pool ?m 1024 env_last_fails pipeline_zero = (?w, False)"
    unfolding fill_pool_def up fill_slots_append r by (simp add: s)
  then have w: "pool_last_fails = ?w" by (simp add: pool_last_fails_def)
  show "fill_pool ?m 1024 env_last_fails pipeline_zero = (pool_last_fails, False)" using f w by simp
  show "length (xfers pool_last_fails) = BUFFER_CNT" unfolding w using l by (simp add: pipeline_zero_def)
  show "\<forall>i<63. \<exists>t. xfers pool_last_fails ! i = Ptr t \<and> buffer t = Some i" unfolding w using a by simp
  show "xfers pool_last_fails ! 63 = Null" unfolding w using l by (simp add: pipeline_zero_def BUFFER_CNT_def)
  show "heap pool_last_fails = {..<63}" unfolding w using h by (simp add: pipeline_zero_def atLeast_upt)
  show "flying pool_last_fails = {..<63}"
    unfolding w using fl by (auto simp add: pipeline_zero_def env_last_fails_def LIBUSB_SUCCESS_def)
  show "frees (calls pool_last_fails) = []" unfolding w using fr by (simp add: pipeline_zero_def)
  have "pool_inv pipeline_zero" by (simp add: pool_inv_def pipeline_zero_def state_zero_def)
  then show "pool_inv pool_last_fails" unfolding pool_last_fails_def by (rule fill_pool_inv)
qed

text \<open>
  A transfer that completes before its cancellation takes effect is resubmitted by the
  callback when \<open>terminate\<close> is not set (as after \<^verbatim>\<open>goto fail3\<close> at lines 676, 714 and
  763). Nothing cancels it again: after libusb has reported every cancellation the block
  still waits at line 802, with one transfer in flight and no buffer freed.
\<close>

lemma deliver_resubmitted:
  assumes "slot c \<in> flying w" "slot c < length (xfers w)" "xfers w ! slot c = Ptr t"
    and "\<not> terminate w" "cstatus c = LIBUSB_TRANSFER_COMPLETED" "resubmit_res c = LIBUSB_SUCCESS"
  shows "flying (occur (Completes c) w) = flying w"
  using assms
  by (simp add: deliver_def transfer_cb_def transfer_cb_resubmit_def libusb_submit_transfer_def Let_def
        insert_absorb)

lemma drain_resubmitted:
  assumes wf: "wf_pool w" and inv: "pool_inv w" and tm: "\<not> terminate w"
    and fl: "flying w = {..<BUFFER_CNT}"
    and c: "slot c = 0" "cstatus c = LIBUSB_TRANSFER_COMPLETED" "resubmit_res c = LIBUSB_SUCCESS"
    and "is": "set is = {1..<BUFFER_CNT}" "distinct is"
  shows "\<exists>w'. drain [Completes c # map cancelled is] w = Stuck w' \<and> flying w' = {0} \<and>
           frees (calls w') = frees (calls w)"
proof -
  have ptr: "\<forall>i \<in> set [0..<BUFFER_CNT]. \<exists>t. xfers w ! i = Ptr t"
    using wf by (auto simp add: wf_pool_def)
  obtain w1 where ca: "cancel_all [0..<BUFFER_CNT] w = Done w1"
    using cancel_all_done[OF ptr] by auto
  note cs = cancel_all_spec[OF ca]
  have wf1: "wf_pool w1" using wf cs by (simp add: wf_pool_frame)
  let ?w1 = "w1\<lparr>calls := calls w1 @ [Handle_events]\<rparr>"
  let ?wa = "occur (Completes c) ?w1"
  let ?w2 = "libusb_handle_events (Completes c # map cancelled is) w1"
  have wf1': "wf_pool ?w1" using wf1 by (simp add: wf_pool_def)
  have pos: "0 < BUFFER_CNT" by (simp add: BUFFER_CNT_def)
  have l1: "length (xfers ?w1) = BUFFER_CNT" using wf1' by (simp add: wf_pool_def)
  obtain t where t: "xfers ?w1 ! 0 = Ptr t"
    using wf1' pos unfolding wf_pool_def by blast
  have p1: "slot c \<in> flying ?w1" using c(1) cs fl pos by simp
  have p2: "slot c < length (xfers ?w1)" using c(1) l1 pos by simp
  have p3: "xfers ?w1 ! slot c = Ptr t" using t c(1) by simp
  have p4: "\<not> terminate ?w1" using cs tm by simp
  have fa: "flying ?wa = {..<BUFFER_CNT}"
    using deliver_resubmitted[OF p1 p2 p3 p4 c(2) c(3)] cs fl by simp
  have wfa: "wf_pool ?wa" using wf1' by (rule wf_pool_occur)
  have la: "length (xfers ?wa) = BUFFER_CNT" using wfa by (simp add: wf_pool_def)
  have sb: "\<forall>i \<in> set is. i < length (xfers ?wa) \<and> slot_buffer ?wa i \<noteq> []"
  proof
    fix i assume "i \<in> set is"
    then have i: "i < BUFFER_CNT" using "is"(1) by simp
    then show "i < length (xfers ?wa) \<and> slot_buffer ?wa i \<noteq> []"
      using la wf_slot_buffer[OF wfa i] by simp
  qed
  have sub: "set is \<subseteq> flying ?wa" unfolding fa "is"(1) by auto
  have w2: "?w2 = fold occur (map cancelled is) ?wa" by (simp add: libusb_handle_events_def)
  have diff: "{..<BUFFER_CNT} - {1..<BUFFER_CNT} = {0::nat}" using pos by auto
  have fl2: "flying ?w2 = {0}"
    unfolding w2 fold_cancelled_slots[OF sb sub "is"(2)] fa "is"(1) by (rule diff)
  have inv1: "pool_inv w1" using inv cs by (simp add: pool_inv_def)
  have inv2: "pool_inv ?w2" using inv1 by (rule handle_events_inv)
  have "unat (active_transfers (state ?w2)) = 1" using inv2 unfolding pool_inv_def fl2 by simp
  then have a2: "active_transfers (state ?w2) \<noteq> 0" by auto
  have "flying w1 = {..<BUFFER_CNT}" using cs fl by simp
  then have "unat (active_transfers (state w1)) = BUFFER_CNT" using inv1 unfolding pool_inv_def by simp
  then have a1: "active_transfers (state w1) \<noteq> 0" using pos by auto
  have dw: "drain_wait [Completes c # map cancelled is] w1 = Stuck ?w2" using a1 a2 by simp
  have d: "drain [Completes c # map cancelled is] w = Stuck ?w2" using ca dw by (simp add: drain_def)
  have fr: "frees (calls ?w2) = frees (calls w)"
    using handle_events_frame[of "Completes c # map cancelled is" w1] cs by simp
  show ?thesis using d fl2 fr by blast
qed

lemma drain_waits_for_resubmitted_transfer:
  "\<not> terminate (pool_after env_all) \<and>
   drain [Completes ok_completion # map cancelled [1..<BUFFER_CNT]] (pool_after env_all) =
     Stuck (world_of (drain [Completes ok_completion # map cancelled [1..<BUFFER_CNT]] (pool_after env_all))) \<and>
   flying (world_of (drain [Completes ok_completion # map cancelled [1..<BUFFER_CNT]] (pool_after env_all))) = {0} \<and>
   frees (calls (world_of (drain [Completes ok_completion # map cancelled [1..<BUFFER_CNT]] (pool_after env_all)))) = []"
proof -
  let ?w = "pool_after env_all"
  have e: "\<forall>i<BUFFER_CNT. alloc_ok (env_all i) \<and> malloc_ok (env_all i)" by (simp add: env_all_def)
  note pf = pool_after_facts[OF e]
  have sr: "submit_res (env_all i) = LIBUSB_SUCCESS" for i
    by (simp add: env_all_def LIBUSB_SUCCESS_def)
  have fl: "flying ?w = {..<BUFFER_CNT}"
    unfolding pf(4) sr by (simp add: lessThan_def)
  have c: "slot ok_completion = 0" "cstatus ok_completion = LIBUSB_TRANSFER_COMPLETED"
    "resubmit_res ok_completion = LIBUSB_SUCCESS"
    by (simp_all add: ok_completion_def LIBUSB_SUCCESS_def)
  have s: "set [1..<BUFFER_CNT] = {1..<BUFFER_CNT}" by (rule set_upt)
  have "\<exists>w'. drain [Completes ok_completion # map cancelled [1..<BUFFER_CNT]] ?w = Stuck w' \<and>
          flying w' = {0} \<and> frees (calls w') = frees (calls ?w)"
    by (rule drain_resubmitted[OF pf(1) pf(2) pf(6) fl c s distinct_upt])
  then obtain w' where d: "drain [Completes ok_completion # map cancelled [1..<BUFFER_CNT]] ?w = Stuck w'"
    and f: "flying w' = {0}" and fr: "frees (calls w') = frees (calls ?w)"
    by (elim exE conjE)
  have wo: "world_of (Stuck w') = w'" by simp
  show ?thesis unfolding d wo using pf(6) f fr pf(5) by (simp only: simp_thms)
qed

subsection \<open>Claims about the pool\<close>

text \<open>
  Counterexample to claim C4 as stated (``\<open>active_transfers\<close> reaches zero only during or
  after drain''). Only entry 0 is submitted successfully when the pool is filled, so
  \<open>active_transfers\<close> is 1. In the first turn of the main loop that transfer completes with
  a transport error and its resubmission fails: \<open>active_transfers\<close> is 0 while \<open>terminate\<close>
  is not set and the program is still in its main loop.
\<close>

theorem active_zero_in_main_loop:
  "unat (active_transfers (state (fst (fill_pool U3LOOP_MODE_READ_WRITE 1024 env_first
       (pipeline_zero\<lparr>state := state_zero\<lparr>start_time := time_zero, measurement_time := time_zero\<rparr>\<rparr>))))) = 1 \<and>
   main_pipeline time_zero U3LOOP_MODE_READ_WRITE 1024 env_first 0 0 [one_turn] [] =
     Stuck (world_of (main_pipeline time_zero U3LOOP_MODE_READ_WRITE 1024 env_first 0 0 [one_turn] [])) \<and>
   active_transfers (state (world_of
     (main_pipeline time_zero U3LOOP_MODE_READ_WRITE 1024 env_first 0 0 [one_turn] []))) = 0 \<and>
   \<not> terminate (world_of
     (main_pipeline time_zero U3LOOP_MODE_READ_WRITE 1024 env_first 0 0 [one_turn] []))"
proof -
  let ?w0 = "pipeline_zero\<lparr>state := state_zero\<lparr>start_time := time_zero, measurement_time := time_zero\<rparr>\<rparr>"
  have l0: "length (xfers ?w0) = BUFFER_CNT" "flying ?w0 = {}"
    by (simp_all add: pipeline_zero_def)
  have e0: "\<forall>i<BUFFER_CNT. alloc_ok (env_first i) \<and> malloc_ok (env_first i)"
    by (simp add: env_first_def)
  obtain w1 where f: "fill_pool U3LOOP_MODE_READ_WRITE 1024 env_first ?w0 = (w1, True)"
    and wf: "wf_pool w1"
    and fl: "flying w1 = {i. i < BUFFER_CNT \<and> submit_res (env_first i) = LIBUSB_SUCCESS}"
    and tm: "terminate w1 = terminate ?w0"
    and st: "stats (state w1) = stats (state ?w0)"
    using fill_pool_ok[OF l0 e0, of U3LOOP_MODE_READ_WRITE 1024] by auto
  have fl1: "flying w1 = {0}"
    unfolding fl by (auto simp add: env_first_def LIBUSB_SUCCESS_def BUFFER_CNT_def)
  have inv1: "pool_inv w1"
    using fill_pool_inv[OF pipeline_start_inv, of U3LOOP_MODE_READ_WRITE 1024 env_first time_zero] f by simp
  have a1: "unat (active_transfers (state w1)) = 1" using inv1 fl1 by (simp add: pool_inv_def)
  have nt: "\<not> terminate w1" using tm by (simp add: pipeline_zero_def)
  have s1: "start_time (state w1) = time_zero"
    using stats_fields[OF st] by (simp add: state_zero_def)
  have len: "0 < length (xfers w1)" using wf by (simp add: wf_pool_def BUFFER_CNT_def)
  have "0 < BUFFER_CNT" by (simp add: BUFFER_CNT_def)
  then have "\<exists>t. xfers w1 ! 0 = Ptr t \<and> buffer t = Some 0"
    using wf by (simp add: wf_pool_def)
  then obtain t where t: "xfers w1 ! 0 = Ptr t" by blast
  let ?w2 = "libusb_handle_events [Completes error_completion] w1"
  have inv2: "pool_inv ?w2" using inv1 by (rule handle_events_inv)
  have fl2: "flying ?w2 = {}" and nt2: "\<not> terminate ?w2" and s2: "start_time (state ?w2) = time_zero"
    using t len fl1 nt s1
    by (simp_all add: libusb_handle_events_def deliver_def error_completion_def Let_def
          transfer_cb_def transfer_cb_resubmit_def libusb_submit_transfer_def LIBUSB_SUCCESS_def)
  have a2: "active_transfers (state ?w2) = 0" using inv2 fl2 by (simp add: pool_inv_def unat_eq_0)
  have ml: "main_loop 0 0 [one_turn] (False, 0) w1 = Stuck ?w2"
    using nt nt2 s2 by (simp add: one_turn_def Let_def time_zero_def)
  have mp: "main_pipeline time_zero U3LOOP_MODE_READ_WRITE 1024 env_first 0 0 [one_turn] [] = Stuck ?w2"
    using f ml by (simp add: main_pipeline_def)
  show ?thesis using a1 a2 nt2 f by (simp add: mp)
qed

text \<open>
  Claim C4, amended. At every point of main from the allocation loop to the end of the
  drain (after any number of handled events), \<open>active_transfers\<close> equals the number of
  transfers that are submitted and not yet called back, and so never exceeds the pool size
  \<open>BUFFER_CNT\<close>. A delivered completion decrements it once, and it is incremented again
  only when the resubmission in that callback succeeds. (It can be zero before the drain:
  see the counterexample.)
\<close>

theorem active_transfers_invariant:
  "unat (active_transfers (state (world_of (main_pipeline start m sz env lim ival es bs)))) =
     card (flying (world_of (main_pipeline start m sz env lim ival es bs))) \<and>
   unat (active_transfers (state (world_of (main_pipeline start m sz env lim ival es bs)))) \<le> BUFFER_CNT \<and>
   (pool_inv w \<longrightarrow>
      active_transfers (state (deliver c w)) =
        (if slot c \<in> flying w \<and> slot c < length (xfers w) \<and> (\<exists>t. xfers w ! slot c = Ptr t)
         then active_transfers (state w) - 1 + (if slot c \<in> flying (deliver c w) then 1 else 0)
         else active_transfers (state w)))"
proof -
  note i = main_pipeline_inv[of start m sz env lim ival es bs]
  show ?thesis
    using i pool_inv_bound[OF i] deliver_active[of w c] by (simp only: pool_inv_def) blast
qed

theorem active_transfers_invariant_witness:
  "unat (active_transfers (state (world_of
     (main_pipeline time_zero U3LOOP_MODE_READ_WRITE 1024 env_all 0 1 [one_turn] [])))) \<le> BUFFER_CNT \<and>
   pool_inv (pool_after env_all) \<and>
   active_transfers (state (deliver error_completion (pool_after env_all))) =
     active_transfers (state (pool_after env_all)) - 1"
proof -
  have e: "\<forall>i<BUFFER_CNT. alloc_ok (env_all i) \<and> malloc_ok (env_all i)"
    by (simp add: env_all_def)
  note f = pool_after_facts[OF e]
  have z: "0 < BUFFER_CNT" by (simp add: BUFFER_CNT_def)
  have s0: "submit_res (env_all 0) = LIBUSB_SUCCESS" by (simp add: env_all_def LIBUSB_SUCCESS_def)
  have fl: "slot error_completion \<in> flying (pool_after env_all)"
    using z s0 by (simp add: f(4) error_completion_def)
  have len: "slot error_completion < length (xfers (pool_after env_all))"
    using f(1) z by (simp add: wf_pool_def error_completion_def)
  have "\<exists>t. xfers (pool_after env_all) ! 0 = Ptr t \<and> buffer t = Some 0"
    using f(1) z by (simp add: wf_pool_def)
  then obtain t where t: "xfers (pool_after env_all) ! slot error_completion = Ptr t"
    by (auto simp add: error_completion_def)
  have nf: "slot error_completion \<notin> flying (deliver error_completion (pool_after env_all))"
    using fl len t f(6)
    by (simp add: deliver_def Let_def transfer_cb_def error_completion_def LIBUSB_SUCCESS_def
          transfer_cb_resubmit_def libusb_submit_transfer_def)
  note a = active_transfers_invariant[of time_zero U3LOOP_MODE_READ_WRITE 1024 env_all 0 1
            "[one_turn]" "[]" "pool_after env_all" error_completion]
  have "active_transfers (state (deliver error_completion (pool_after env_all))) =
     active_transfers (state (pool_after env_all)) - 1"
    using a f(2) fl len t nf by simp
  then show ?thesis using a f(2) by simp
qed

text \<open>
  The state after the drain (the block at \<^verbatim>\<open>fail3\<close>), for every run of it that returns,
  whatever the number of transfers still submitted when it starts: \<open>active_transfers\<close> is
  0; the calls of \<^verbatim>\<open>free\<close> it made are exactly one per buffer of the pool, in the order of
  the entries, the buffers are pairwise distinct and were live, none of them is live
  afterwards; and every one of these calls was made when \<open>active_transfers\<close> was 0.
\<close>

lemma drain_post:
  assumes "drain bs w = Done w'"
  shows "active_transfers (state w') = 0 \<and>
         frees (calls w') = frees (calls w) @ map (\<lambda>a. (a, 0)) (pool_buffers w) \<and>
         distinct (pool_buffers w) \<and>
         set (pool_buffers w) \<subseteq> heap w \<and>
         heap w' = heap w - set (pool_buffers w)"
proof -
  obtain w1 where c: "cancel_all [0..<BUFFER_CNT] w = Done w1"
    using assms by (auto simp add: drain_def split: stage.splits)
  obtain w2 where d: "drain_wait bs w1 = Done w2"
    using assms c by (auto simp add: drain_def split: stage.splits)
  have f: "free_all [0..<BUFFER_CNT] w2 = Done w'"
    using assms c d by (simp add: drain_def)
  note cs = cancel_all_spec[OF c]
  note ds = drain_wait_spec[OF d]
  note fs = free_all_spec[OF f]
  have sb: "slot_buffer w2 = slot_buffer w"
    using cs ds by (simp add: slot_buffer_def fun_eq_iff)
  show ?thesis
    using cs ds fs by (simp add: pool_buffers_def sb)
qed

text \<open>
  The drain of a completely allocated pool with none, half and all of its transfers in
  flight, when libusb reports the cancellation of each of them.
\<close>

lemma drain_post_example:
  "(\<exists>w'. drain [map cancelled []] (pool_after env_none) = Done w' \<and>
      active_transfers (state w') = 0 \<and> heap w' = {} \<and>
      frees (calls w') = map (\<lambda>a. (a, 0)) [0..<BUFFER_CNT]) \<and>
   (\<exists>w'. drain [map cancelled (filter even [0..<BUFFER_CNT])] (pool_after env_even) = Done w' \<and>
      active_transfers (state w') = 0 \<and> heap w' = {} \<and>
      frees (calls w') = map (\<lambda>a. (a, 0)) [0..<BUFFER_CNT]) \<and>
   (\<exists>w'. drain [map cancelled [0..<BUFFER_CNT]] (pool_after env_all) = Done w' \<and>
      active_transfers (state w') = 0 \<and> heap w' = {} \<and>
      frees (calls w') = map (\<lambda>a. (a, 0)) [0..<BUFFER_CNT])"
proof -
  have post: "\<exists>w'. drain [map cancelled is] (pool_after env) = Done w' \<and>
      active_transfers (state w') = 0 \<and> heap w' = {} \<and>
      frees (calls w') = map (\<lambda>a. (a, 0)) [0..<BUFFER_CNT]"
    if e: "\<forall>i<BUFFER_CNT. alloc_ok (env i) \<and> malloc_ok (env i)"
      and s: "set is = {i. i < BUFFER_CNT \<and> submit_res (env i) = LIBUSB_SUCCESS}"
      and d: "distinct is"
    for env "is"
  proof -
    note f = pool_after_facts[OF e]
    have s': "set is = flying (pool_after env)" using s f(4) by simp
    obtain w' where r: "drain [map cancelled is] (pool_after env) = Done w'"
      using drain_returns[OF f(1) f(2) s' d] by blast
    have b: "pool_buffers (pool_after env) = [0..<BUFFER_CNT]"
      using f(1) by (rule wf_pool_buffers)
    note p = drain_post[OF r]
    have "active_transfers (state w') = 0" using p by simp
    moreover have "heap w' = {}" using p f(3) by (simp add: b atLeast_upt)
    moreover have "frees (calls w') = map (\<lambda>a. (a, 0)) [0..<BUFFER_CNT]"
      using p f(5) by (simp add: b)
    ultimately show ?thesis using r by blast
  qed
  have e1: "\<forall>i<BUFFER_CNT. alloc_ok (env_none i) \<and> malloc_ok (env_none i)"
    and e2: "\<forall>i<BUFFER_CNT. alloc_ok (env_even i) \<and> malloc_ok (env_even i)"
    and e3: "\<forall>i<BUFFER_CNT. alloc_ok (env_all i) \<and> malloc_ok (env_all i)"
    by (simp_all add: env_none_def env_even_def env_all_def)
  have s1: "set [] = {i. i < BUFFER_CNT \<and> submit_res (env_none i) = LIBUSB_SUCCESS}"
    by (simp add: env_none_def LIBUSB_SUCCESS_def)
  have s2: "set (filter even [0..<BUFFER_CNT]) =
      {i. i < BUFFER_CNT \<and> submit_res (env_even i) = LIBUSB_SUCCESS}"
    by (auto simp add: env_even_def LIBUSB_SUCCESS_def)
  have s3: "set [0..<BUFFER_CNT] = {i. i < BUFFER_CNT \<and> submit_res (env_all i) = LIBUSB_SUCCESS}"
    by (auto simp add: env_all_def LIBUSB_SUCCESS_def)
  show ?thesis
    using post[OF e1 s1] post[OF e2 s2] post[OF e3 s3] by simp
qed

text \<open>
  Claim C2 (for every drain invocation, after the drain returns \<open>active_transfers\<close> is 0
  and every buffer allocated for an entry has been freed exactly once), at an input where
  the code departs from it. \<^verbatim>\<open>libusb_alloc_transfer\<close> returns \<^verbatim>\<open>NULL\<close> for the last entry
  of the pool (line 673), and \<^verbatim>\<open>main\<close> jumps to \<^verbatim>\<open>fail3\<close> with 63 transfers in flight and
  \<^verbatim>\<open>xfers[63] == NULL\<close>. The cancel loop skips the \<^verbatim>\<open>NULL\<close> entry (line 798), libusb
  reports the 63 cancellations and \<open>active_transfers\<close> reaches 0; the free loop frees 63
  buffers and then reads \<^verbatim>\<open>xfers[63]->buffer\<close> (line 808) without the test the cancel loop
  makes: the block faults instead of returning. Whatever libusb reports, the block does
  not return from this state.
\<close>

theorem drain_faults_after_failed_allocation:
  "fill_pool U3LOOP_MODE_READ_WRITE 1024 env_last_fails pipeline_zero = (pool_last_fails, False) \<and>
   xfers pool_last_fails ! 63 = Null \<and>
   unat (active_transfers (state pool_last_fails)) = 63 \<and>
   drain [map cancelled [0..<63]] pool_last_fails =
     Crash SIGSEGV (world_of (drain [map cancelled [0..<63]] pool_last_fails)) \<and>
   frees (calls (world_of (drain [map cancelled [0..<63]] pool_last_fails))) =
     map (\<lambda>a. (a, 0)) [0..<63] \<and>
   (\<forall>bs w'. drain bs pool_last_fails \<noteq> Done w')"
proof -
  let ?w = pool_last_fails
  note pf = pool_last_fails_facts
  note up = upt_pool
  have act: "unat (active_transfers (state ?w)) = 63"
    using pf(8) pf(6) by (simp add: pool_inv_def)
  have nz: "active_transfers (state ?w) \<noteq> 0" using act by auto
  have def: "\<forall>i \<in> set [0..<BUFFER_CNT]. xfers ?w ! i \<noteq> Indeterminate"
  proof
    fix i assume "i \<in> set [0..<BUFFER_CNT]"
    then have "i < 63 \<or> i = 63" by (auto simp add: BUFFER_CNT_def)
    then show "xfers ?w ! i \<noteq> Indeterminate" using pf(3) pf(4) by auto
  qed
  obtain w1 where c: "cancel_all [0..<BUFFER_CNT] ?w = Done w1"
    using cancel_all_defined[OF def] by auto
  note cs = cancel_all_spec[OF c]
  let ?b = "map cancelled [0..<63]"
  let ?w1 = "w1\<lparr>calls := calls w1 @ [Handle_events]\<rparr>"
  let ?w2 = "libusb_handle_events ?b w1"
  have sb1: "\<forall>i \<in> set [0..<63]. i < length (xfers ?w1) \<and> slot_buffer ?w1 i \<noteq> []"
    using pf(2) pf(3) cs by (auto simp add: slot_buffer_def BUFFER_CNT_def)
  have fl1: "set [0..<63] \<subseteq> flying ?w1" using pf(6) cs by auto
  have fl2: "flying ?w2 = {}"
    unfolding libusb_handle_events_def
    using fold_cancelled_slots[OF sb1 fl1 distinct_upt] pf(6) cs by auto
  have inv1: "pool_inv w1" using pf(8) cs by (simp add: pool_inv_def)
  have inv2: "pool_inv ?w2" using inv1 by (rule handle_events_inv)
  have a2: "active_transfers (state ?w2) = 0" using inv2 fl2 by (simp add: pool_inv_def unat_eq_0)
  have dw: "drain_wait [?b] w1 = Done ?w2" using nz cs a2 by simp
  note hf = handle_events_frame[of ?b w1]
  have x2: "\<forall>i \<in> set [0..<63]. (\<exists>t. xfers ?w2 ! i = Ptr t \<and> buffer t = Some i) \<and> i \<in> heap ?w2"
  proof
    fix i assume i: "i \<in> set [0..<63]"
    then have "slot_buffer ?w i = [i]" using pf(3) by (auto simp add: slot_buffer_def)
    then have "slot_buffer ?w2 i = [i]" using hf cs by (simp add: slot_buffer_def)
    then have "\<exists>t. xfers ?w2 ! i = Ptr t \<and> buffer t = Some i"
      by (auto simp add: slot_buffer_def split: xfer_ptr.splits option.splits)
    moreover have "i \<in> heap ?w2" using hf cs pf(5) i by simp
    ultimately show "(\<exists>t. xfers ?w2 ! i = Ptr t \<and> buffer t = Some i) \<and> i \<in> heap ?w2" by simp
  qed
  obtain w3 where f3: "free_all [0..<63] ?w2 = Done w3"
    using free_all_done[OF distinct_upt x2] by auto
  note fs = free_all_spec[OF f3]
  have n2: "xfers ?w2 ! 63 = Null" using pf(4) cs by (simp add: handle_events_null)
  then have n3: "xfers w3 ! 63 = Null" using free_all_xfers[OF f3] by simp
  have fa: "free_all [0..<BUFFER_CNT] ?w2 = Crash SIGSEGV w3"
    unfolding up free_all_append f3 using n3 by simp
  have d: "drain [?b] ?w = Crash SIGSEGV w3" using c dw fa by (simp add: drain_def)
  have m: "map (slot_buffer ?w2) [0..<63] = map (\<lambda>i. [i]) [0..<63]"
  proof (rule map_cong)
    fix i assume "i \<in> set [0..<63]"
    with x2 obtain t where "xfers ?w2 ! i = Ptr t" "buffer t = Some i" by blast
    then show "slot_buffer ?w2 i = [i]" by (simp add: slot_buffer_def)
  qed simp
  have fr0: "frees (calls w3) =
      frees (calls ?w2) @ map (\<lambda>a. (a, active_transfers (state ?w2))) (concat (map (slot_buffer ?w2) [0..<63]))"
    using fs by blast
  have fz: "frees (calls ?w2) = []" using hf cs pf(7) by simp
  have fr: "frees (calls w3) = map (\<lambda>a. (a, 0)) [0..<63]"
    unfolding fr0 m concat_singletons a2 fz by simp
  have never: "\<forall>bs w'. drain bs ?w \<noteq> Done w'"
    using drain_with_null[of 63 ?w] pf(4) by (simp add: BUFFER_CNT_def)
  show ?thesis using pf(1) pf(4) act d fr never by simp
qed

subsection \<open>Arithmetic of the counters\<close>

lemma sint_add_fits:
  fixes c h :: c_int
  assumes "0 \<le> sint h" "sint c + sint h < 2 ^ 31"
  shows "sint (c + h) = sint c + sint h"
proof -
  have lo: "- (2 ^ 31) \<le> sint c" using sint_ge[of c] by simp
  have "signed_take_bit 31 (sint c + sint h) = sint c + sint h"
    by (rule signed_take_bit_int_eq_self) (use lo assms in simp_all)
  then show ?thesis by (simp add: sint_word_add)
qed

lemma sint_add_mono:
  fixes c h :: c_int
  assumes "0 \<le> sint h \<and> sint c + sint h < 2 ^ 31"
  shows "sint c \<le> sint (c + h)"
  using sint_add_fits[of h c] assms by simp

lemma unat_add_mono:
  fixes c d :: u32
  assumes "unat c + unat d < 2 ^ 32"
  shows "c \<le> c + d"
  using assms by (simp add: word_le_nat_alt unat_word_ariths)

lemmas snapshot_eval =
  print_measurement_def print_measurement_u3loop_def Let_def speeds_def speed_def udiv_def
  usec_between_def snapshot_def snapshot_u3loop_def snapshot_example_def snapshot_example_u3loop_def
  state_zero_def state_zero_u3loop_def host_errors_zero_def host_errors_zero_u3loop_def
  u3loop_errors_zero_def time_zero_def after_125ms_def

subsection \<open>Claims about the measurement\<close>

text \<open>
  Claim C5, amended. For every call of \<^verbatim>\<open>print_measurement\<close> (of either program) whose
  clock reading succeeds: afterwards all interval host and device error counters are zero;
  each cumulative device error bitmask is the old one OR the interval one, hence not below
  its old value; each cumulative count is the old one plus the interval one in the
  counter's own arithmetic, hence not below its old value whenever that sum fits the
  counter (\<^verbatim>\<open>uint32_t\<close> for the device counts; \<^verbatim>\<open>int\<close>, with interval counts that are not
  negative, for the host counts).
\<close>

theorem snapshot_counters:
  "(print_measurement (Some now) s = Inr (s', l) \<longrightarrow>
      dev_errors s' = u3loop_errors_zero \<and> host_errors s' = host_errors_zero \<and>
      phy_errors (cum_dev_errors s') = phy_errors (cum_dev_errors s) OR phy_errors (dev_errors s) \<and>
      ll_errors (cum_dev_errors s') = ll_errors (cum_dev_errors s) OR ll_errors (dev_errors s) \<and>
      phy_errors (cum_dev_errors s) \<le> phy_errors (cum_dev_errors s') \<and>
      ll_errors (cum_dev_errors s) \<le> ll_errors (cum_dev_errors s') \<and>
      phy_error_cnt (cum_dev_errors s') = phy_error_cnt (cum_dev_errors s) + phy_error_cnt (dev_errors s) \<and>
      ll_error_cnt (cum_dev_errors s') = ll_error_cnt (cum_dev_errors s) + ll_error_cnt (dev_errors s) \<and>
      (dev_counts_fit (cum_dev_errors s) (dev_errors s) \<longrightarrow>
         phy_error_cnt (cum_dev_errors s) \<le> phy_error_cnt (cum_dev_errors s') \<and>
         ll_error_cnt (cum_dev_errors s) \<le> ll_error_cnt (cum_dev_errors s')) \<and>
      host_counters (cum_host_errors s') =
        map2 (+) (host_counters (cum_host_errors s)) (host_counters (host_errors s)) \<and>
      (counts_fit (host_counters (cum_host_errors s)) (host_counters (host_errors s)) \<longrightarrow>
         counts_le (host_counters (cum_host_errors s)) (host_counters (cum_host_errors s')))) \<and>
   (print_measurement_u3loop (Some now) sl = Inr (sl', ll) \<longrightarrow>
      dev_errors_l sl' = u3loop_errors_zero \<and> host_errors_l sl' = host_errors_zero_u3loop \<and>
      phy_errors (cum_dev_errors_l sl') = phy_errors (cum_dev_errors_l sl) OR phy_errors (dev_errors_l sl) \<and>
      ll_errors (cum_dev_errors_l sl') = ll_errors (cum_dev_errors_l sl) OR ll_errors (dev_errors_l sl) \<and>
      phy_errors (cum_dev_errors_l sl) \<le> phy_errors (cum_dev_errors_l sl') \<and>
      ll_errors (cum_dev_errors_l sl) \<le> ll_errors (cum_dev_errors_l sl') \<and>
      phy_error_cnt (cum_dev_errors_l sl') =
        phy_error_cnt (cum_dev_errors_l sl) + phy_error_cnt (dev_errors_l sl) \<and>
      ll_error_cnt (cum_dev_errors_l sl') =
        ll_error_cnt (cum_dev_errors_l sl) + ll_error_cnt (dev_errors_l sl) \<and>
      (dev_counts_fit (cum_dev_errors_l sl) (dev_errors_l sl) \<longrightarrow>
         phy_error_cnt (cum_dev_errors_l sl) \<le> phy_error_cnt (cum_dev_errors_l sl') \<and>
         ll_error_cnt (cum_dev_errors_l sl) \<le> ll_error_cnt (cum_dev_errors_l sl')) \<and>
      host_counters_u3loop (cum_host_errors_l sl') =
        map2 (+) (host_counters_u3loop (cum_host_errors_l sl)) (host_counters_u3loop (host_errors_l sl)) \<and>
      (counts_fit (host_counters_u3loop (cum_host_errors_l sl)) (host_counters_u3loop (host_errors_l sl)) \<longrightarrow>
         counts_le (host_counters_u3loop (cum_host_errors_l sl))
                   (host_counters_u3loop (cum_host_errors_l sl'))))"
proof -
  have a: "print_measurement (Some now) s = Inr (s', l) \<Longrightarrow>
      dev_errors s' = u3loop_errors_zero \<and> host_errors s' = host_errors_zero \<and>
      cum_dev_errors s' =
        \<lparr>phy_error_cnt = phy_error_cnt (cum_dev_errors s) + phy_error_cnt (dev_errors s),
         ll_error_cnt = ll_error_cnt (cum_dev_errors s) + ll_error_cnt (dev_errors s),
         phy_errors = phy_errors (cum_dev_errors s) OR phy_errors (dev_errors s),
         ll_errors = ll_errors (cum_dev_errors s) OR ll_errors (dev_errors s)\<rparr> \<and>
      host_counters (cum_host_errors s') =
        map2 (+) (host_counters (cum_host_errors s)) (host_counters (host_errors s))"
    by (auto simp add: print_measurement_def Let_def speeds_def udiv_def host_counters_def
          split: if_splits)
  have b: "print_measurement_u3loop (Some now) sl = Inr (sl', ll) \<Longrightarrow>
      dev_errors_l sl' = u3loop_errors_zero \<and> host_errors_l sl' = host_errors_zero_u3loop \<and>
      cum_dev_errors_l sl' =
        \<lparr>phy_error_cnt = phy_error_cnt (cum_dev_errors_l sl) + phy_error_cnt (dev_errors_l sl),
         ll_error_cnt = ll_error_cnt (cum_dev_errors_l sl) + ll_error_cnt (dev_errors_l sl),
         phy_errors = phy_errors (cum_dev_errors_l sl) OR phy_errors (dev_errors_l sl),
         ll_errors = ll_errors (cum_dev_errors_l sl) OR ll_errors (dev_errors_l sl)\<rparr> \<and>
      host_counters_u3loop (cum_host_errors_l sl') =
        map2 (+) (host_counters_u3loop (cum_host_errors_l sl)) (host_counters_u3loop (host_errors_l sl))"
    by (auto simp add: print_measurement_u3loop_def Let_def speed_def udiv_def host_counters_u3loop_def
          split: if_splits)
  have c: "counts_fit xs ys \<Longrightarrow> counts_le xs (map2 (+) xs ys)" for xs ys
    unfolding counts_fit_def counts_le_def
    by (induction xs ys rule: list_all2_induct) (simp_all add: sint_add_mono)
  show ?thesis
    using a b c[of "host_counters (cum_host_errors s)" "host_counters (host_errors s)"]
      c[of "host_counters_u3loop (cum_host_errors_l sl)" "host_counters_u3loop (host_errors_l sl)"]
    by (auto simp add: le_word_or2 dev_counts_fit_def unat_add_mono)
qed

theorem snapshot_counters_witness:
  "print_measurement (Some after_125ms) snapshot_example =
     Inr (snapshot (Some after_125ms) snapshot_example,
          snd (projr (print_measurement (Some after_125ms) snapshot_example))) \<and>
   dev_counts_fit (cum_dev_errors snapshot_example) (dev_errors snapshot_example) \<and>
   counts_fit (host_counters (cum_host_errors snapshot_example)) (host_counters (host_errors snapshot_example)) \<and>
   host_errors (snapshot (Some after_125ms) snapshot_example) = host_errors_zero \<and>
   dev_errors (snapshot (Some after_125ms) snapshot_example) = u3loop_errors_zero \<and>
   phy_errors (cum_dev_errors (snapshot (Some after_125ms) snapshot_example)) = 0x05 \<and>
   phy_error_cnt (cum_dev_errors (snapshot (Some after_125ms) snapshot_example)) = 4 \<and>
   timeout (cum_host_errors (snapshot (Some after_125ms) snapshot_example)) = 7 \<and>
   print_measurement_u3loop (Some after_125ms) snapshot_example_u3loop =
     Inr (snapshot_u3loop (Some after_125ms) snapshot_example_u3loop,
          snd (projr (print_measurement_u3loop (Some after_125ms) snapshot_example_u3loop))) \<and>
   dev_counts_fit (cum_dev_errors_l snapshot_example_u3loop) (dev_errors_l snapshot_example_u3loop) \<and>
   counts_fit (host_counters_u3loop (cum_host_errors_l snapshot_example_u3loop))
              (host_counters_u3loop (host_errors_l snapshot_example_u3loop)) \<and>
   host_errors_l (snapshot_u3loop (Some after_125ms) snapshot_example_u3loop) = host_errors_zero_u3loop \<and>
   phy_errors (cum_dev_errors_l (snapshot_u3loop (Some after_125ms) snapshot_example_u3loop)) = 0x05 \<and>
   rx_timeout (cum_host_errors_l (snapshot_u3loop (Some after_125ms) snapshot_example_u3loop)) = 7"
  using snapshot_counters [of after_125ms snapshot_example
          "snapshot (Some after_125ms) snapshot_example"
          "snd (projr (print_measurement (Some after_125ms) snapshot_example))"
          snapshot_example_u3loop
          "snapshot_u3loop (Some after_125ms) snapshot_example_u3loop"
          "snd (projr (print_measurement_u3loop (Some after_125ms) snapshot_example_u3loop))"]
  by (simp add: snapshot_eval dev_counts_fit_def counts_fit_def host_counters_def host_counters_u3loop_def)

text \<open>
  Counterexample to claim C5 as stated. In u3loop.c the device reports 0xFFFFFFFF
  physical-layer errors for one interval and 1 for the next: the second measurement takes
  the cumulative count from 0xFFFFFFFF to 0. And a call of \<^verbatim>\<open>print_measurement\<close> whose
  \<^verbatim>\<open>clock_gettime\<close> fails returns with the interval counters as they were.
\<close>

theorem snapshot_wraps_or_returns_early:
  "phy_error_cnt (cum_dev_errors_l wrap_before) = 0xFFFFFFFF \<and>
   phy_error_cnt (cum_dev_errors_l (snapshot_u3loop (Some after_125ms) wrap_before)) = 0 \<and>
   \<not> phy_error_cnt (cum_dev_errors_l wrap_before)
       \<le> phy_error_cnt (cum_dev_errors_l (snapshot_u3loop (Some after_125ms) wrap_before)) \<and>
   host_errors (snapshot None snapshot_example) \<noteq> host_errors_zero \<and>
   dev_errors (snapshot None snapshot_example) \<noteq> u3loop_errors_zero"
  by (simp add: snapshot_eval wrap_before_def get_error_counters_def dev_report_full_def dev_report_one_def)

text \<open>
  Claim C7. \<^verbatim>\<open>print_measurement\<close> (of either program) never divides by zero: it returns
  a result for every state and every clock reading. When the elapsed interval is zero
  microseconds the interval throughputs it reports are \<^verbatim>\<open>INFINITY\<close>; otherwise they are the
  quotients by the (non-zero) interval.
\<close>

theorem zero_interval_is_infinity:
  "(\<exists>r. print_measurement clk s = Inr r) \<and>
   (\<exists>r. print_measurement_u3loop clk sl = Inr r) \<and>
   (usec_between now (measurement_time s) = 0 \<longrightarrow>
      (\<exists>s' l. print_measurement (Some now) s = Inr (s', Some l) \<and>
         mbps l = INFINITY \<and> tx_mbps l = INFINITY \<and> rx_mbps l = INFINITY)) \<and>
   (usec_between now (measurement_time s) \<noteq> 0 \<longrightarrow>
      (\<exists>s' l. print_measurement (Some now) s = Inr (s', Some l) \<and>
         mbps l = Of_u64 (((tx_bytes (ctrs s) - tx_bytes (measurement s) +
                            (rx_bytes (ctrs s) - rx_bytes (measurement s))) * 8)
                          div usec_between now (measurement_time s)))) \<and>
   (usec_between now (measurement_time_l sl) = 0 \<longrightarrow>
      (\<exists>s' l. print_measurement_u3loop (Some now) sl = Inr (s', Some l) \<and>
         rx_mbps_l l = INFINITY)) \<and>
   (usec_between now (measurement_time_l sl) \<noteq> 0 \<longrightarrow>
      (\<exists>s' l. print_measurement_u3loop (Some now) sl = Inr (s', Some l) \<and>
         rx_mbps_l l = Of_u64 (((rx_bytes (ctrs_l sl) - rx_bytes (measurement_l sl)) * 8)
                          div usec_between now (measurement_time_l sl))))"
  by (cases clk)
     (simp_all add: print_measurement_def print_measurement_u3loop_def Let_def speeds_def speed_def
        udiv_def)

theorem zero_interval_is_infinity_witness:
  "usec_between time_zero (measurement_time snapshot_example) = 0 \<and>
   map_option mbps (snd (projr (print_measurement (Some time_zero) snapshot_example))) = Some INFINITY \<and>
   usec_between after_125ms (measurement_time snapshot_example) = 125000 \<and>
   map_option mbps (snd (projr (print_measurement (Some after_125ms) snapshot_example))) = Some (Of_u64 64) \<and>
   map_option rx_mbps_l (snd (projr (print_measurement_u3loop (Some time_zero) snapshot_example_u3loop)))
     = Some INFINITY \<and>
   map_option rx_mbps_l (snd (projr (print_measurement_u3loop (Some after_125ms) snapshot_example_u3loop)))
     = Some (Of_u64 64)"
  using zero_interval_is_infinity [of "Some time_zero" snapshot_example snapshot_example_u3loop time_zero]
        zero_interval_is_infinity [of "Some after_125ms" snapshot_example snapshot_example_u3loop after_125ms]
  by (simp add: snapshot_eval)

subsection \<open>Claims about device lookup and re-enumeration\<close>

lemma turns_snoc: "turns k @ [Sleep 1, Poll] = turns (Suc k)"
  unfolding turns_def by (induction k) simp_all

lemma loop_step:
  "i < MAX_DEVICE_WAIT \<Longrightarrow>
   reenumeration_loop poll i (turns i) =
     (case poll i of
        Inl f \<Rightarrow> (Wait_fault f, turns (Suc i))
      | Inr (Some dev) \<Rightarrow> (Reenumerated dev, turns (Suc i))
      | Inr None \<Rightarrow> reenumeration_loop poll (Suc i) (turns (Suc i)))"
  by (subst reenumeration_loop.simps) (simp only: turns_snoc if_True)

lemma loop_end:
  "\<not> i < MAX_DEVICE_WAIT \<Longrightarrow> reenumeration_loop poll i acts = (Reenumeration_timeout, acts)"
  by (subst reenumeration_loop.simps) (simp only: if_False)

lemma loop_trace:
  "i \<le> MAX_DEVICE_WAIT \<Longrightarrow>
   \<exists>k. i + k \<le> MAX_DEVICE_WAIT \<and> snd (reenumeration_loop poll i (turns i)) = turns (i + k)"
proof (induction "MAX_DEVICE_WAIT - i" arbitrary: i)
  case 0
  then have "\<not> i < MAX_DEVICE_WAIT" by simp
  then show ?case using 0 by (intro exI[of _ 0]) (simp add: loop_end)
next
  case (Suc n)
  then have lt: "i < MAX_DEVICE_WAIT" by simp
  show ?case
  proof (cases "poll i")
    case (Inl f)
    then show ?thesis using lt by (intro exI[of _ 1]) (simp add: loop_step)
  next
    case (Inr r)
    show ?thesis
    proof (cases r)
      case (Some dev)
      then show ?thesis using lt Inr by (intro exI[of _ 1]) (simp add: loop_step)
    next
      case None
      have "n = MAX_DEVICE_WAIT - Suc i" "Suc i \<le> MAX_DEVICE_WAIT" using Suc(2) lt by simp_all
      from Suc(1)[OF this] obtain k where k: "Suc i + k \<le> MAX_DEVICE_WAIT"
        "snd (reenumeration_loop poll (Suc i) (turns (Suc i))) = turns (Suc i + k)" by blast
      show ?thesis
        using lt Inr None k by (intro exI[of _ "Suc k"]) (simp add: loop_step)
    qed
  qed
qed

lemma loop_absent:
  "i \<le> MAX_DEVICE_WAIT \<Longrightarrow> \<forall>j<MAX_DEVICE_WAIT. poll j = Inr None \<Longrightarrow>
   reenumeration_loop poll i (turns i) = (Reenumeration_timeout, turns MAX_DEVICE_WAIT)"
proof (induction "MAX_DEVICE_WAIT - i" arbitrary: i)
  case 0
  then have "\<not> i < MAX_DEVICE_WAIT" "i = MAX_DEVICE_WAIT" by simp_all
  then show ?case by (simp add: loop_end)
next
  case (Suc n)
  then have lt: "i < MAX_DEVICE_WAIT" by simp
  have p: "poll i = Inr None" using lt Suc(4) by simp
  have "n = MAX_DEVICE_WAIT - Suc i" "Suc i \<le> MAX_DEVICE_WAIT" using Suc(2) lt by simp_all
  from Suc(1)[OF this Suc(4)] show ?case using lt p by (simp add: loop_step)
qed

lemma count_turns: "count_list (turns k) Poll = k"
  unfolding turns_def by (induction k) simp_all

lemma wait_loop_facts:
  "\<exists>k\<le>MAX_DEVICE_WAIT. snd (reenumeration_loop poll 0 []) = turns k"
  "count_list (snd (reenumeration_loop poll 0 [])) Poll \<le> MAX_DEVICE_WAIT"
  "(\<forall>j<MAX_DEVICE_WAIT. poll j = Inr None) \<longrightarrow>
     reenumeration_loop poll 0 [] = (Reenumeration_timeout, turns MAX_DEVICE_WAIT)"
proof -
  have t0: "turns 0 = []" by (simp add: turns_def)
  show a: "\<exists>k\<le>MAX_DEVICE_WAIT. snd (reenumeration_loop poll 0 []) = turns k"
    using loop_trace[of 0 poll] by (simp add: t0)
  then show "count_list (snd (reenumeration_loop poll 0 [])) Poll \<le> MAX_DEVICE_WAIT"
    by (auto simp add: count_turns)
  show "(\<forall>j<MAX_DEVICE_WAIT. poll j = Inr None) \<longrightarrow>
     reenumeration_loop poll 0 [] = (Reenumeration_timeout, turns MAX_DEVICE_WAIT)"
    using loop_absent[of 0 poll] by (simp add: t0)
qed

text \<open>
  Claim C6. The wait for re-enumeration (of either program, with \<open>MAX_DEVICE_WAIT\<close> = 10)
  always ends; what it does is a number of turns of \<^verbatim>\<open>sleep(1)\<close> followed by one call of
  \<^verbatim>\<open>open_device\<close>, at most 10 of them. When \<^verbatim>\<open>open_device\<close> finds no device in each of the
  10 turns, the wait ends after exactly 10 turns with the failure
  ``Timeout waiting for device to re-enumerate'', however long the device stays away
  after that.
\<close>

theorem reenumeration_wait_bounded:
  "(\<exists>k\<le>MAX_DEVICE_WAIT. snd (reenumeration_wait vid pid sn bus) = turns k) \<and>
   count_list (snd (reenumeration_wait vid pid sn bus)) Poll \<le> MAX_DEVICE_WAIT \<and>
   ((\<forall>i<MAX_DEVICE_WAIT. open_device vid pid sn (bus i) = Inr None) \<longrightarrow>
      reenumeration_wait vid pid sn bus = (Reenumeration_timeout, turns MAX_DEVICE_WAIT)) \<and>
   (\<exists>k\<le>MAX_DEVICE_WAIT. snd (reenumeration_wait_u3loop sn bus) = turns k) \<and>
   count_list (snd (reenumeration_wait_u3loop sn bus)) Poll \<le> MAX_DEVICE_WAIT \<and>
   ((\<forall>i<MAX_DEVICE_WAIT. open_device_u3loop sn (bus i) = Inr None) \<longrightarrow>
      reenumeration_wait_u3loop sn bus = (Reenumeration_timeout, turns MAX_DEVICE_WAIT))"
  unfolding reenumeration_wait_def reenumeration_wait_u3loop_def
  using wait_loop_facts[of "\<lambda>i. open_device vid pid sn (bus i)"]
        wait_loop_facts[of "\<lambda>i. open_device_u3loop sn (bus i)"]
  by (intro conjI) assumption+

theorem reenumeration_wait_bounded_witness:
  "reenumeration_wait VID PID None absent_for_11 = (Reenumeration_timeout, turns 10) \<and>
   count_list (snd (reenumeration_wait VID PID None absent_for_11)) Poll = 10 \<and>
   reenumeration_wait_u3loop None absent_for_11 = (Reenumeration_timeout, turns 10) \<and>
   reenumeration_wait VID PID None back_after_3 = (Reenumerated 0, turns 4) \<and>
   reenumeration_wait_u3loop (Some ''PMU3XXXX'') back_after_3 = (Reenumerated 0, turns 4)"
proof -
  have a: "\<forall>i<MAX_DEVICE_WAIT. open_device VID PID None (absent_for_11 i) = Inr None"
    by (simp add: MAX_DEVICE_WAIT_def absent_for_11_def open_device_def)
  have b: "\<forall>i<MAX_DEVICE_WAIT. open_device_u3loop None (absent_for_11 i) = Inr None"
    by (simp add: MAX_DEVICE_WAIT_def absent_for_11_def open_device_u3loop_def)
  note w = reenumeration_wait_bounded[of VID PID None absent_for_11]
  have 1: "reenumeration_wait VID PID None absent_for_11 = (Reenumeration_timeout, turns 10)"
    using w a by (simp add: MAX_DEVICE_WAIT_def)
  have 2: "reenumeration_wait_u3loop None absent_for_11 = (Reenumeration_timeout, turns 10)"
    using w b by (simp add: MAX_DEVICE_WAIT_def)
  have t4: "turns 4 = [Sleep 1, Poll, Sleep 1, Poll, Sleep 1, Poll, Sleep 1, Poll]"
    by (simp add: turns_def eval_nat_numeral)
  have 3: "reenumeration_wait VID PID None back_after_3 = (Reenumerated 0, turns 4)"
    "reenumeration_wait_u3loop (Some ''PMU3XXXX'') back_after_3 = (Reenumerated 0, turns 4)"
    by (simp_all add: reenumeration_wait_def reenumeration_wait_u3loop_def reenumeration_loop.simps
          MAX_DEVICE_WAIT_def back_after_3_def open_device_def open_device_u3loop_def
          open_device_body_def good_device_def LIBUSB_SUCCESS_def t4)
  show ?thesis using 1 2 3 by (simp add: count_turns)
qed

text \<open>
  Claim C10. In the loop of \<^verbatim>\<open>open_device\<close> (of either program) the branch
  ``Unable to get serial number'' is taken exactly for a candidate that passed the
  descriptor, id and open checks and whose serial read returned 0. A candidate whose
  serial read returns a negative error code is not rejected: \<^verbatim>\<open>serial_str\<close> stays unset,
  and without a serial-number filter the candidate is the device found (and returned, if
  its interface can be claimed). With a filter, the comparison reads the unset array.
\<close>

theorem serial_read_error_not_rejected:
  "(open_device_body vid pid sn d = Inr Serial_rejected) =
     (desc_err d = LIBUSB_SUCCESS \<and> idVendor d = vid \<and> idProduct d = pid \<and>
      open_err d = LIBUSB_SUCCESS \<and> serial_ret d = LIBUSB_SUCCESS) \<and>
   (desc_err d = LIBUSB_SUCCESS \<and> idVendor d = vid \<and> idProduct d = pid \<and>
    open_err d = LIBUSB_SUCCESS \<and> serial_ret d < 0 \<longrightarrow>
      open_device_body vid pid sn d \<noteq> Inr Serial_rejected \<and>
      open_device_body vid pid None d = Inr (Found None) \<and>
      open_device_body vid pid (Some x) d = Inl Indeterminate_read \<and>
      open_device_loop vid pid None (d # ds) i = Inr (Some (i, d)) \<and>
      open_device vid pid None (Some (d # ds)) =
        Inr (if claim_err d \<noteq> LIBUSB_SUCCESS then None else Some 0)) \<and>
   (desc_err d = LIBUSB_SUCCESS \<and> idVendor d = VID \<and> idProduct d = PID \<and>
    open_err d = LIBUSB_SUCCESS \<and> serial_ret d < 0 \<longrightarrow>
      open_device_u3loop None (Some (d # ds)) =
        Inr (if claim_err d \<noteq> LIBUSB_SUCCESS then None else Some 0))"
  by (auto simp add: open_device_body_def open_device_def open_device_u3loop_def Let_def
        LIBUSB_SUCCESS_def split: option.splits)

theorem serial_read_error_not_rejected_witness:
  "open_device_body VID PID None empty_serial_device = Inr Serial_rejected \<and>
   open_device_body VID PID None unreadable_device = Inr (Found None) \<and>
   open_device_body VID PID (Some ''PMU3XXXX'') unreadable_device = Inl Indeterminate_read \<and>
   open_device VID PID None (Some [unreadable_device, good_device]) = Inr (Some 0) \<and>
   open_device_u3loop None (Some [unreadable_device, good_device]) = Inr (Some 0) \<and>
   open_device VID PID None (Some [empty_serial_device, good_device]) = Inr (Some 1)"
  using serial_read_error_not_rejected [of VID PID None empty_serial_device]
        serial_read_error_not_rejected [of VID PID None unreadable_device "''PMU3XXXX''" "[good_device]" 0]
  by (simp add: open_device_body_def open_device_def open_device_u3loop_def Let_def
        LIBUSB_SUCCESS_def unreadable_device_def empty_serial_device_def good_device_def)

subsection \<open>Facts about the byte counters\<close>

lemma length_rx_write: "length (rx_write d rxbuf) = length rxbuf"
  by (simp add: rx_write_def)

lemma differs_ne: "k < length b \<Longrightarrow> a ! k \<noteq> b ! k \<Longrightarrow> a \<noteq> b"
  by auto

lemma resubmit_ctrs: "ctrs (state (transfer_cb_resubmit env i w)) = ctrs (state w)"
  by (simp add: transfer_cb_resubmit_def libusb_submit_transfer_def Let_def)

lemma transfer_cb_total:
  "total_bytes (ctrs (state (transfer_cb env i t w))) =
     total_bytes (ctrs (state w)) +
       (if status t = LIBUSB_TRANSFER_COMPLETED then scast (actual_length t) else 0)"
  by (cases "status t") (simp_all add: transfer_cb_def Let_def resubmit_ctrs total_bytes_def)

lemma occur_total:
  "total_bytes (ctrs (state (occur e w))) = total_bytes (ctrs (state w)) + success_bytes [e] w"
proof (cases e)
  case Signal
  then show ?thesis by (simp add: terminator_def)
next
  case (Completes c)
  show ?thesis
  proof (cases "delivered c w")
    case False
    then show ?thesis using Completes
      by (auto simp add: delivered_def deliver_def split: xfer_ptr.splits)
  next
    case True
    then obtain t where t: "xfers w ! slot c = Ptr t"
      by (auto simp add: delivered_def split: xfer_ptr.splits)
    show ?thesis using True t Completes
      by (simp add: delivered_def deliver_def Let_def transfer_cb_total)
  qed
qed

lemma fold_occur_total:
  "total_bytes (ctrs (state (fold occur es w))) = total_bytes (ctrs (state w)) + success_bytes es w"
proof (induction es arbitrary: w)
  case Nil
  then show ?case by simp
next
  case (Cons e es)
  have "total_bytes (ctrs (state (fold occur es (occur e w)))) =
        total_bytes (ctrs (state (occur e w))) + success_bytes es (occur e w)"
    by (rule Cons.IH)
  then show ?case using occur_total[of e w] by (simp add: add.assoc)
qed

lemma no_wrap_le:
  fixes a n :: u64
  shows "unat a + unat n < 2 ^ 64 \<Longrightarrow> a \<le> a + n"
  by (simp add: word_le_nat_alt unat_word_ariths)

lemma transfer_cb_mono:
  assumes "unat (tx_bytes (ctrs (state w))) + unat (scast (actual_length t) :: u64) < 2 ^ 64"
    and "unat (rx_bytes (ctrs (state w))) + unat (scast (actual_length t) :: u64) < 2 ^ 64"
  shows "tx_bytes (ctrs (state w)) \<le> tx_bytes (ctrs (state (transfer_cb env i t w))) \<and>
         rx_bytes (ctrs (state w)) \<le> rx_bytes (ctrs (state (transfer_cb env i t w)))"
  using no_wrap_le[OF assms(1)] no_wrap_le[OF assms(2)]
  by (cases "status t") (simp_all add: transfer_cb_def Let_def resubmit_ctrs)

lemma sync_cycle_bytes:
  assumes "sync_cycle tx rx (s, buf) = Inr (s', buf')"
  shows "tx_bytes (ctrs_l s') = tx_bytes (ctrs_l s) + ucast (bulk_transferred tx) \<and>
         rx_bytes (ctrs_l s') = rx_bytes (ctrs_l s) + ucast (bulk_transferred rx)"
  using assms
  by (auto simp add: sync_cycle_def Let_def split: if_splits)

lemma sync_cycles_total:
  "sync_cycles es c = Inr c' \<Longrightarrow>
   total_bytes (ctrs_l (fst c')) = total_bytes (ctrs_l (fst c)) + sum_list (map reported_bytes es)"
proof (induction es arbitrary: c)
  case Nil
  then show ?case by simp
next
  case (Cons e es)
  obtain tx rx where e: "e = (tx, rx)" by (cases e)
  obtain s buf where c: "c = (s, buf)" by (cases c)
  obtain c1 where c1: "sync_cycle tx rx (s, buf) = Inr c1"
    using Cons.prems e c by (cases "sync_cycle tx rx (s, buf)") simp_all
  obtain s1 buf1 where s1: "c1 = (s1, buf1)" by (cases c1)
  have r: "sync_cycles es c1 = Inr c'" using Cons.prems e c c1 by simp
  note b = sync_cycle_bytes[OF c1[unfolded s1]]
  show ?case
    using Cons.IH[OF r] b
    by (simp add: e c s1 total_bytes_def reported_bytes_def)
qed

lemma unat_ucast_32_64: "unat (ucast (x :: c_int) :: u64) = unat x"
  apply (simp add: unsigned_ucast_eq)
  apply (rule take_bit_nat_eq_self)
  apply (rule less_le_trans[OF unsigned_less])
  apply simp
  done

lemma fill_slot_ctrs: "ctrs (state (fst (fill_slot m sz e i w))) = ctrs (state w)"
  by (simp add: fill_slot_def Let_def libusb_submit_transfer_def)

lemma fill_slots_ctrs: "ctrs (state (fst (fill_slots m sz env is w))) = ctrs (state w)"
proof (induction "is" arbitrary: w)
  case Nil
  then show ?case by simp
next
  case (Cons i "is")
  obtain w' ok where f: "fill_slot m sz (env i) i w = (w', ok)"
    by (cases "fill_slot m sz (env i) i w")
  have c: "ctrs (state w') = ctrs (state w)" using fill_slot_ctrs[of m sz "env i" i w] f by simp
  show ?case using Cons.IH[of w'] f c by (cases ok) simp_all
qed

lemma print_measurement_ctrs:
  "print_measurement clk s = Inr (s', l) \<Longrightarrow> ctrs s' = ctrs s"
  by (auto simp add: print_measurement_def Let_def split: option.splits sum.splits prod.splits)

lemma buf_lengths: "length txbuf = BLOCK_SIZE" "length rxbuf_start = BLOCK_SIZE"
  by (simp_all add: txbuf_def rxbuf_start_def)

lemma rx_write_full: "length d = length b \<Longrightarrow> rx_write d b = d"
  by (simp add: rx_write_def)

lemma flipped_differs: "txbuf[7 := 0x45] \<noteq> txbuf"
proof -
  have "7 < length txbuf" by (simp add: txbuf_def BLOCK_SIZE_def)
  moreover have "txbuf ! 7 \<noteq> 0x45" by (simp add: txbuf_def BLOCK_SIZE_def)
  ultimately show ?thesis by (simp add: list_update_same_conv)
qed

lemma received:
  "rx_write (bulk_data receive_echo) rxbuf_start = txbuf"
  "rx_write (bulk_data receive_flipped) rxbuf_start = txbuf[7 := 0x45]"
  by (simp_all add: receive_echo_def receive_flipped_def rx_write_full buf_lengths)

lemma sync_cycle_returns:
  "bulk_err tx \<in> {LIBUSB_SUCCESS, LIBUSB_ERROR_TIMEOUT, LIBUSB_ERROR_PIPE, LIBUSB_ERROR_OVERFLOW} \<Longrightarrow>
   bulk_err rx \<in> {LIBUSB_SUCCESS, LIBUSB_ERROR_TIMEOUT, LIBUSB_ERROR_PIPE, LIBUSB_ERROR_OVERFLOW} \<Longrightarrow>
   \<exists>s' buf'. sync_cycle tx rx (s, buf) = Inr (s', buf') \<and>
     host_errors_l s'\<lparr>data_corrupt_l := 0\<rparr> =
       (let h = host_errors_l s;
            h1 = (if bulk_err tx = LIBUSB_ERROR_TIMEOUT then h\<lparr>tx_timeout := tx_timeout h + 1\<rparr>
                  else if bulk_err tx = LIBUSB_ERROR_PIPE then h\<lparr>tx_stall := tx_stall h + 1\<rparr>
                  else if bulk_err tx = LIBUSB_ERROR_OVERFLOW then h\<lparr>tx_overflow := tx_overflow h + 1\<rparr>
                  else h);
            h2 = (if bulk_err rx = LIBUSB_ERROR_TIMEOUT then h1\<lparr>rx_timeout := rx_timeout h1 + 1\<rparr>
                  else if bulk_err rx = LIBUSB_ERROR_PIPE then h1\<lparr>rx_stall := rx_stall h1 + 1\<rparr>
                  else if bulk_err rx = LIBUSB_ERROR_OVERFLOW then h1\<lparr>rx_overflow := rx_overflow h1 + 1\<rparr>
                  else h1)
        in h2\<lparr>data_corrupt_l := 0\<rparr>)"
  by (auto simp add: sync_cycle_def Let_def LIBUSB_SUCCESS_def LIBUSB_ERROR_TIMEOUT_def
        LIBUSB_ERROR_PIPE_def LIBUSB_ERROR_OVERFLOW_def)

lemma example_cycle:
  assumes "bulk_err tx \<in> {LIBUSB_SUCCESS, LIBUSB_ERROR_TIMEOUT, LIBUSB_ERROR_PIPE, LIBUSB_ERROR_OVERFLOW}"
    and "bulk_err rx \<in> {LIBUSB_SUCCESS, LIBUSB_ERROR_TIMEOUT, LIBUSB_ERROR_PIPE, LIBUSB_ERROR_OVERFLOW}"
  shows "\<exists>buf'. sync_cycle tx rx (state_zero_u3loop, rxbuf_start) = Inr (after_cycle tx rx, buf')"
  using sync_cycle_returns[OF assms, of state_zero_u3loop rxbuf_start]
  by (auto simp add: after_cycle_def)

lemma example_errs:
  "bulk_err send_ok \<in> {LIBUSB_SUCCESS, LIBUSB_ERROR_TIMEOUT, LIBUSB_ERROR_PIPE, LIBUSB_ERROR_OVERFLOW}"
  "bulk_err send_timeout_partial \<in> {LIBUSB_SUCCESS, LIBUSB_ERROR_TIMEOUT, LIBUSB_ERROR_PIPE, LIBUSB_ERROR_OVERFLOW}"
  "bulk_err receive_echo \<in> {LIBUSB_SUCCESS, LIBUSB_ERROR_TIMEOUT, LIBUSB_ERROR_PIPE, LIBUSB_ERROR_OVERFLOW}"
  by (simp_all add: send_ok_def send_timeout_partial_def receive_echo_def LIBUSB_SUCCESS_def)

subsection \<open>Claims about the byte counters and the loopback check\<close>

text \<open>
  Claim C9. In a cycle of u3loop.c whose send and receive both return
  \<^verbatim>\<open>LIBUSB_SUCCESS\<close>, \<open>ops\<close> is incremented once; \<open>data_corrupt\<close> keeps its value when the
  receive buffer equals the sentinel-filled send buffer byte for byte, and is incremented
  exactly once when the receive buffer differs from it in at least one byte.
\<close>

theorem sync_cycle_compare:
  "bulk_err tx = LIBUSB_SUCCESS \<and> bulk_err rx = LIBUSB_SUCCESS \<and> length rxbuf = BLOCK_SIZE \<longrightarrow>
   (\<exists>s'. sync_cycle tx rx (s, rxbuf) = Inr (s', rx_write (bulk_data rx) rxbuf) \<and>
      ops_l s' = ops_l s + 1 \<and>
      (rx_write (bulk_data rx) rxbuf = txbuf \<longrightarrow>
         data_corrupt_l (host_errors_l s') = data_corrupt_l (host_errors_l s)) \<and>
      ((\<exists>k<BLOCK_SIZE. rx_write (bulk_data rx) rxbuf ! k \<noteq> txbuf ! k) \<longrightarrow>
         data_corrupt_l (host_errors_l s') = data_corrupt_l (host_errors_l s) + 1) \<and>
      (rx_write (bulk_data rx) rxbuf \<noteq> txbuf \<longrightarrow>
         data_corrupt_l (host_errors_l s') = data_corrupt_l (host_errors_l s) + 1))"
proof -
  have tl: "length txbuf = BLOCK_SIZE" by (simp add: txbuf_def)
  have ne: "(\<exists>k<BLOCK_SIZE. b ! k \<noteq> txbuf ! k) \<Longrightarrow> b \<noteq> txbuf" for b
    using tl by auto
  show ?thesis
    using tl ne[of "rx_write (bulk_data rx) rxbuf"] length_rx_write[of "bulk_data rx" rxbuf]
    by (auto simp add: sync_cycle_def Let_def memcmp_def)
qed

theorem sync_cycle_compare_witness:
  "data_corrupt_l (host_errors_l (after_cycle send_ok receive_echo)) = 0 \<and>
   ops_l (after_cycle send_ok receive_echo) = 1 \<and>
   data_corrupt_l (host_errors_l (after_cycle send_ok receive_flipped)) = 1 \<and>
   ops_l (after_cycle send_ok receive_flipped) = 1"
proof -
  have e: "bulk_err send_ok = LIBUSB_SUCCESS" "bulk_err receive_echo = LIBUSB_SUCCESS"
    "bulk_err receive_flipped = LIBUSB_SUCCESS"
    by (simp_all add: send_ok_def receive_echo_def receive_flipped_def LIBUSB_SUCCESS_def)
  have z: "data_corrupt_l (host_errors_l state_zero_u3loop) = 0" "ops_l state_zero_u3loop = 0"
    by (simp_all add: state_zero_u3loop_def host_errors_zero_u3loop_def)
  have 1: "data_corrupt_l (host_errors_l (after_cycle send_ok receive_echo)) = 0 \<and>
     ops_l (after_cycle send_ok receive_echo) = 1"
    using sync_cycle_compare[of send_ok receive_echo rxbuf_start state_zero_u3loop] e buf_lengths z
    by (auto simp add: after_cycle_def received)
  have 2: "data_corrupt_l (host_errors_l (after_cycle send_ok receive_flipped)) = 1 \<and>
     ops_l (after_cycle send_ok receive_flipped) = 1"
    using sync_cycle_compare[of send_ok receive_flipped rxbuf_start state_zero_u3loop] e buf_lengths z
      flipped_differs
    by (auto simp add: after_cycle_def received)
  show ?thesis using 1 2 by simp
qed

text \<open>
  Counterexample to claim C8 as stated. In u3loop.c a send returns
  \<^verbatim>\<open>LIBUSB_ERROR_TIMEOUT\<close> after libusb has transferred 1024 bytes, and the receive of the
  cycle succeeds with 65536 bytes. The cycle counts the timeout and still adds the 1024
  bytes to \<open>tx_bytes\<close>: \<open>tx_bytes + rx_bytes\<close> is 66560, the successful calls account for
  65536.
\<close>

theorem timeout_bytes_are_counted:
  "bulk_err send_timeout_partial = LIBUSB_ERROR_TIMEOUT \<and>
   tx_timeout (host_errors_l (after_cycle send_timeout_partial receive_echo)) = 1 \<and>
   tx_bytes (ctrs_l (after_cycle send_timeout_partial receive_echo)) = 1024 \<and>
   rx_bytes (ctrs_l (after_cycle send_timeout_partial receive_echo)) = 65536 \<and>
   total_bytes (ctrs_l (after_cycle send_timeout_partial receive_echo)) = 66560 \<and>
   successful_bytes (send_timeout_partial, receive_echo) = 65536 \<and>
   total_bytes (ctrs_l (after_cycle send_timeout_partial receive_echo)) \<noteq>
     successful_bytes (send_timeout_partial, receive_echo)"
proof -
  obtain s' buf' where c: "sync_cycle send_timeout_partial receive_echo (state_zero_u3loop, rxbuf_start) = Inr (s', buf')"
    and h: "host_errors_l s'\<lparr>data_corrupt_l := 0\<rparr> =
       (host_errors_l state_zero_u3loop)\<lparr>tx_timeout := tx_timeout (host_errors_l state_zero_u3loop) + 1,
          data_corrupt_l := 0\<rparr>"
    using sync_cycle_returns[OF example_errs(2) example_errs(3), of state_zero_u3loop rxbuf_start]
    by (auto simp add: send_timeout_partial_def receive_echo_def Let_def LIBUSB_SUCCESS_def
          LIBUSB_ERROR_TIMEOUT_def LIBUSB_ERROR_PIPE_def LIBUSB_ERROR_OVERFLOW_def)
  have a: "after_cycle send_timeout_partial receive_echo = s'" by (simp add: after_cycle_def c)
  note b = sync_cycle_bytes[OF c]
  have t: "tx_timeout (host_errors_l s') = 1"
  proof -
    have "tx_timeout (host_errors_l s'\<lparr>data_corrupt_l := 0\<rparr>) = 1"
      unfolding h by (simp add: state_zero_u3loop_def host_errors_zero_u3loop_def)
    then show ?thesis by simp
  qed
  show ?thesis
    unfolding a using b t
    by (simp add: total_bytes_def successful_bytes_def send_timeout_partial_def receive_echo_def
          state_zero_u3loop_def LIBUSB_SUCCESS_def LIBUSB_ERROR_TIMEOUT_def)
qed

text \<open>
  Claim C8, amended. In u3bench.c, over any sequence of handled events
  \<open>tx_bytes + rx_bytes\<close> grows by the sum of \<^verbatim>\<open>actual_length\<close> over the completions delivered
  with status COMPLETED and by nothing else (the allocation loop and \<^verbatim>\<open>print_measurement\<close>
  leave the byte counters alone). In u3loop.c every cycle that does not end the run adds
  to \<open>tx_bytes\<close> and \<open>rx_bytes\<close> the byte counts libusb reports for its send and its receive,
  whether the call succeeded or was counted as timeout, stall or overflow. In both, a byte
  counter never decreases as long as the addition does not wrap the 64-bit counter.
\<close>

theorem byte_counters:
  "total_bytes (ctrs (state (fold occur es w))) =
     total_bytes (ctrs (state w)) + success_bytes es w \<and>
   ctrs (state (fst (fill_pool m sz env w))) = ctrs (state w) \<and>
   (print_measurement clk s = Inr (s', l) \<longrightarrow> ctrs s' = ctrs s) \<and>
   (unat (tx_bytes (ctrs (state w))) + unat (scast (actual_length t) :: u64) < 2 ^ 64 \<and>
    unat (rx_bytes (ctrs (state w))) + unat (scast (actual_length t) :: u64) < 2 ^ 64 \<longrightarrow>
      tx_bytes (ctrs (state w)) \<le> tx_bytes (ctrs (state (transfer_cb r i t w))) \<and>
      rx_bytes (ctrs (state w)) \<le> rx_bytes (ctrs (state (transfer_cb r i t w)))) \<and>
   (sync_cycle tx rx (sl, buf) = Inr (sl', buf') \<longrightarrow>
      tx_bytes (ctrs_l sl') = tx_bytes (ctrs_l sl) + ucast (bulk_transferred tx) \<and>
      rx_bytes (ctrs_l sl') = rx_bytes (ctrs_l sl) + ucast (bulk_transferred rx) \<and>
      (unat (tx_bytes (ctrs_l sl)) + unat (bulk_transferred tx) < 2 ^ 64 \<and>
       unat (rx_bytes (ctrs_l sl)) + unat (bulk_transferred rx) < 2 ^ 64 \<longrightarrow>
         tx_bytes (ctrs_l sl) \<le> tx_bytes (ctrs_l sl') \<and>
         rx_bytes (ctrs_l sl) \<le> rx_bytes (ctrs_l sl'))) \<and>
   (sync_cycles cs c = Inr c' \<longrightarrow>
      total_bytes (ctrs_l (fst c')) =
        total_bytes (ctrs_l (fst c)) + sum_list (map reported_bytes cs))"
proof -
  have 1: "total_bytes (ctrs (state (fold occur es w))) =
     total_bytes (ctrs (state w)) + success_bytes es w"
    by (rule fold_occur_total)
  have 2: "ctrs (state (fst (fill_pool m sz env w))) = ctrs (state w)"
    unfolding fill_pool_def by (rule fill_slots_ctrs)
  have 3: "print_measurement clk s = Inr (s', l) \<longrightarrow> ctrs s' = ctrs s"
    using print_measurement_ctrs by blast
  have 4: "unat (tx_bytes (ctrs (state w))) + unat (scast (actual_length t) :: u64) < 2 ^ 64 \<and>
    unat (rx_bytes (ctrs (state w))) + unat (scast (actual_length t) :: u64) < 2 ^ 64 \<longrightarrow>
      tx_bytes (ctrs (state w)) \<le> tx_bytes (ctrs (state (transfer_cb r i t w))) \<and>
      rx_bytes (ctrs (state w)) \<le> rx_bytes (ctrs (state (transfer_cb r i t w)))"
    using transfer_cb_mono[of w t r i] by blast
  have 5: "sync_cycle tx rx (sl, buf) = Inr (sl', buf') \<longrightarrow>
      tx_bytes (ctrs_l sl') = tx_bytes (ctrs_l sl) + ucast (bulk_transferred tx) \<and>
      rx_bytes (ctrs_l sl') = rx_bytes (ctrs_l sl) + ucast (bulk_transferred rx) \<and>
      (unat (tx_bytes (ctrs_l sl)) + unat (bulk_transferred tx) < 2 ^ 64 \<and>
       unat (rx_bytes (ctrs_l sl)) + unat (bulk_transferred rx) < 2 ^ 64 \<longrightarrow>
         tx_bytes (ctrs_l sl) \<le> tx_bytes (ctrs_l sl') \<and>
         rx_bytes (ctrs_l sl) \<le> rx_bytes (ctrs_l sl'))"
  proof
    assume a: "sync_cycle tx rx (sl, buf) = Inr (sl', buf')"
    note b = sync_cycle_bytes[OF a]
    have "unat (tx_bytes (ctrs_l sl)) + unat (bulk_transferred tx) < 2 ^ 64 \<Longrightarrow>
          tx_bytes (ctrs_l sl) \<le> tx_bytes (ctrs_l sl')"
      using no_wrap_le[of "tx_bytes (ctrs_l sl)" "ucast (bulk_transferred tx)"] b
      by (simp add: unat_ucast_32_64)
    moreover have "unat (rx_bytes (ctrs_l sl)) + unat (bulk_transferred rx) < 2 ^ 64 \<Longrightarrow>
          rx_bytes (ctrs_l sl) \<le> rx_bytes (ctrs_l sl')"
      using no_wrap_le[of "rx_bytes (ctrs_l sl)" "ucast (bulk_transferred rx)"] b
      by (simp add: unat_ucast_32_64)
    ultimately show "tx_bytes (ctrs_l sl') = tx_bytes (ctrs_l sl) + ucast (bulk_transferred tx) \<and>
      rx_bytes (ctrs_l sl') = rx_bytes (ctrs_l sl) + ucast (bulk_transferred rx) \<and>
      (unat (tx_bytes (ctrs_l sl)) + unat (bulk_transferred tx) < 2 ^ 64 \<and>
       unat (rx_bytes (ctrs_l sl)) + unat (bulk_transferred rx) < 2 ^ 64 \<longrightarrow>
         tx_bytes (ctrs_l sl) \<le> tx_bytes (ctrs_l sl') \<and>
         rx_bytes (ctrs_l sl) \<le> rx_bytes (ctrs_l sl'))"
      using b by blast
  qed
  have 6: "sync_cycles cs c = Inr c' \<longrightarrow>
      total_bytes (ctrs_l (fst c')) =
        total_bytes (ctrs_l (fst c)) + sum_list (map reported_bytes cs)"
    using sync_cycles_total by blast
  show ?thesis using 1 2 3 4 5 6 by (intro conjI)
qed

theorem byte_counters_witness:
  "total_bytes (ctrs (state
     (fold occur [Completes ok_completion, Completes timeout_completion] (pool_after env_all)))) = 512 \<and>
   ctrs (snapshot (Some after_125ms) snapshot_example) = ctrs snapshot_example \<and>
   tx_bytes (ctrs (state pipeline_zero)) \<le>
     tx_bytes (ctrs (state
       (transfer_cb 0 0 (example_transfer BULK_OUT LIBUSB_TRANSFER_COMPLETED) pipeline_zero))) \<and>
   tx_bytes (ctrs_l (after_cycle send_timeout_partial receive_echo)) = 1024 \<and>
   tx_bytes (ctrs_l state_zero_u3loop) \<le> tx_bytes (ctrs_l (after_cycle send_timeout_partial receive_echo)) \<and>
   total_bytes (ctrs_l (fst (projr (sync_cycles
       [(send_ok, receive_echo), (send_timeout_partial, receive_echo)]
       (state_zero_u3loop, rxbuf_start))))) = 197632"
proof -
  have e: "\<forall>i<BUFFER_CNT. alloc_ok (env_all i) \<and> malloc_ok (env_all i)"
    by (simp add: env_all_def)
  note f = pool_after_facts[OF e]
  have z: "0 < BUFFER_CNT" by (simp add: BUFFER_CNT_def)
  have s0: "submit_res (env_all 0) = LIBUSB_SUCCESS" by (simp add: env_all_def LIBUSB_SUCCESS_def)
  have fl: "0 \<in> flying (pool_after env_all)" using z s0 by (simp add: f(4))
  have len: "0 < length (xfers (pool_after env_all))" using f(1) z by (simp add: wf_pool_def)
  have "\<exists>t. xfers (pool_after env_all) ! 0 = Ptr t \<and> buffer t = Some 0"
    using f(1) z by (simp add: wf_pool_def)
  then obtain t where t: "xfers (pool_after env_all) ! 0 = Ptr t" by blast
  have d: "delivered ok_completion (pool_after env_all)"
    using fl len t by (simp add: delivered_def ok_completion_def)
  have sb: "success_bytes [Completes ok_completion, Completes timeout_completion] (pool_after env_all) = 512"
    using d by (simp add: ok_completion_def timeout_completion_def)
  note w1 = byte_counters[of "[Completes ok_completion, Completes timeout_completion]" "pool_after env_all"
      U3LOOP_MODE_READ_WRITE 1024 env_all "Some after_125ms" snapshot_example
      "snapshot (Some after_125ms) snapshot_example"
      "snd (projr (print_measurement (Some after_125ms) snapshot_example))"]
  note w2 = byte_counters[of "[]" pipeline_zero U3LOOP_MODE_READ_WRITE 1024 env_all None state_zero
      state_zero None "example_transfer BULK_OUT LIBUSB_TRANSFER_COMPLETED" 0 0
      send_timeout_partial receive_echo state_zero_u3loop rxbuf_start
      "after_cycle send_timeout_partial receive_echo"
      "snd (projr (sync_cycle send_timeout_partial receive_echo (state_zero_u3loop, rxbuf_start)))"
      "[(send_ok, receive_echo), (send_timeout_partial, receive_echo)]"
      "(state_zero_u3loop, rxbuf_start)"
      "projr (sync_cycles [(send_ok, receive_echo), (send_timeout_partial, receive_echo)]
         (state_zero_u3loop, rxbuf_start))"]
  have c0: "ctrs (state (pool_after env_all)) = ctrs (state pipeline_zero)"
    using w2 by (simp add: pool_after_def)
  have 1: "total_bytes (ctrs (state
     (fold occur [Completes ok_completion, Completes timeout_completion] (pool_after env_all)))) = 512"
    using w1 sb c0 by (simp add: total_bytes_def pipeline_zero_def state_zero_def)
  have 2: "ctrs (snapshot (Some after_125ms) snapshot_example) = ctrs snapshot_example"
    using w1 by (simp add: snapshot_eval)
  have 3: "tx_bytes (ctrs (state pipeline_zero)) \<le>
     tx_bytes (ctrs (state
       (transfer_cb 0 0 (example_transfer BULK_OUT LIBUSB_TRANSFER_COMPLETED) pipeline_zero)))"
    using w2 by (simp add: pipeline_zero_def state_zero_def example_transfer_def)
  obtain b1 where c1: "sync_cycle send_timeout_partial receive_echo (state_zero_u3loop, rxbuf_start) =
      Inr (after_cycle send_timeout_partial receive_echo, b1)"
    using example_cycle[OF example_errs(2) example_errs(3)] by blast
  have 4: "tx_bytes (ctrs_l (after_cycle send_timeout_partial receive_echo)) = 1024 \<and>
     tx_bytes (ctrs_l state_zero_u3loop) \<le> tx_bytes (ctrs_l (after_cycle send_timeout_partial receive_echo))"
    using w2 c1 by (simp add: send_timeout_partial_def state_zero_u3loop_def)
  obtain s1 b2 where c2: "sync_cycle send_ok receive_echo (state_zero_u3loop, rxbuf_start) = Inr (s1, b2)"
    using sync_cycle_returns[OF example_errs(1) example_errs(3), of state_zero_u3loop rxbuf_start] by blast
  obtain s2 b3 where c3: "sync_cycle send_timeout_partial receive_echo (s1, b2) = Inr (s2, b3)"
    using sync_cycle_returns[OF example_errs(2) example_errs(3), of s1 b2] by blast
  have cs: "sync_cycles [(send_ok, receive_echo), (send_timeout_partial, receive_echo)]
       (state_zero_u3loop, rxbuf_start) = Inr (s2, b3)"
    by (simp add: c2 c3)
  have 5: "total_bytes (ctrs_l (fst (projr (sync_cycles
       [(send_ok, receive_echo), (send_timeout_partial, receive_echo)]
       (state_zero_u3loop, rxbuf_start))))) = 197632"
    using w2 cs
    by (simp add: total_bytes_def reported_bytes_def send_ok_def send_timeout_partial_def
          receive_echo_def state_zero_u3loop_def)
  show ?thesis using 1 2 3 4 5 by (intro conjI) (erule conjunct1 conjunct2 | assumption)+
qed

end
